theory Spec2Isabelle
  imports Main "HOL-Library.Word"
begin

unbundle bit_operations_syntax

section \<open>The port, the timing primitives and the driver object\<close>

type_synonym u8 = "8 word"

text \<open>
  What the data pin does to the wire: the AVR pin is an input when its DDR bit is clear
  (with the internal pull-up switched by the PORT bit) and drives the level of its PORT
  bit when the DDR bit is set.
\<close>

datatype drive = Floating | PulledUp | DrivenLow | DrivenHigh

text \<open>
  The log of a timing-recording port: every \<open>delayMicroseconds\<close> with the drive the pin
  had while it lasted, every \<open>pinRead\<close> with the value it returned, and every change of the
  global interrupt flag.
\<close>

datatype event = Wait drive nat | Sample u8 | IrqOff | IrqOn

text \<open>A function pointer of type \<open>lpfnInterfaceOneWire_DiscoveredDevice\<close>; \<open>None\<close> is NULL.\<close>

datatype callback = Callback nat

text \<open>
  The \<open>InterfaceOneWire\<close> object together with the hardware it touches.
  \<^item> \<open>ioDDR\<close>, \<open>ioPORT\<close> are \<open>ioRegister[1]\<close> and \<open>ioRegister[2]\<close>; \<open>ioRegister[0]\<close> is the
    input register, whose value at the k-th read is \<open>pin k\<close>; \<open>reads\<close> counts the reads made.
  \<^item> \<open>irq\<close> is the global interrupt enable flag.
  \<^item> \<open>trace\<close> is the port log, newest event first.
  \<^item> \<open>activePullup\<close> says that \<open>ONEWIRE_ACTIVE_PULLUP\<close> is compiled in, \<open>pullupRegister\<close>
    that a pull-up pin was given (the pointer is not \<open>~0\<close>); \<open>pullupDDR\<close> and \<open>pullupPORT\<close>
    are \<open>pullupRegister[1]\<close> and \<open>pullupRegister[2]\<close>.
  \<^item> \<open>adrCurrent\<close> is the array \<open>uint8_t adrCurrent[8]\<close> seen as memory from its first byte on;
    only offsets below 8 belong to it.
  \<^item> \<open>reported\<close> lists the identifiers handed to the discovery callback, oldest first.
  \<^item> \<open>ub\<close> is set when the code leaves defined behaviour: a write outside \<open>adrCurrent\<close> or a
    call through a NULL callback.
\<close>

record onewire =
  ioDDR :: u8
  ioPORT :: u8
  ioRegisterMask :: u8
  pin :: "nat \<Rightarrow> u8"
  reads :: nat
  irq :: bool
  trace :: "event list"
  activePullup :: bool
  pullupRegister :: bool
  pullupDDR :: u8
  pullupPORT :: u8
  pullupRegisterMask :: u8
  discoverCallback :: "callback option"
  adrCurrent :: "nat \<Rightarrow> u8"
  discoveredDevices :: nat
  reported :: "u8 list list"
  ub :: bool

definition line :: "onewire \<Rightarrow> drive" where
  "line s =
     (if ioDDR s AND ioRegisterMask s = 0
      then (if ioPORT s AND ioRegisterMask s = 0 then Floating else PulledUp)
      else (if ioPORT s AND ioRegisterMask s = 0 then DrivenLow else DrivenHigh))"

subsection \<open>Counting with machine integers\<close>

lemma unat_pred_less: "w \<noteq> 0 \<Longrightarrow> unat (w - 1) < unat (w :: 'a::len word)"
  by (simp add: unat_minus_one unat_gt_0)

lemma unat_succ: "(i :: 'a::len word) < n \<Longrightarrow> unat (i + 1) = Suc (unat i)"
proof -
  assume "i < n"
  then have "unat i < unat n"
    by (simp add: word_less_nat_alt)
  moreover have "unat n < 2 ^ LENGTH('a)"
    by (rule unsigned_less)
  ultimately have "unat i + unat (1 :: 'a word) < 2 ^ LENGTH('a)"
    by (simp del: unsigned_less)
  then show ?thesis
    by (simp add: unat_add_lem [THEN iffD1])
qed

lemma unat_pred_pred_less: "(r :: u8) \<noteq> 1 \<Longrightarrow> unat (r - 2) < unat (r - 1)"
  using unat_pred_less [of "r - 1"] by simp

lemma unat_level_less: "(level :: u8) \<noteq> 64 \<Longrightarrow> unat (63 - level) < unat (64 - level)"
  using unat_pred_less [of "64 - level"] by simp

text \<open>
  The number of left shifts that clear an 8-bit mask: the measure of the loops that run
  \<open>mask = mask << 1\<close> until the mask is 0.
\<close>

definition shifts_left :: "u8 \<Rightarrow> nat" where
  "shifts_left m = (LEAST n. push_bit n m = 0)"

lemma shifts_left_step: "push_bit 1 m \<noteq> 0 \<Longrightarrow> shifts_left (push_bit 1 m) < shifts_left m"
proof -
  assume nz: "push_bit 1 m \<noteq> 0"
  then have "m \<noteq> 0" by auto
  then have "\<not> push_bit 0 m = 0" by simp
  moreover have "push_bit 8 m = 0" by simp
  ultimately have "(LEAST n. push_bit n m = 0) = Suc (LEAST k. push_bit (Suc k) m = 0)"
    by (rule Least_Suc [where P = "\<lambda>n. push_bit n m = 0" and n = 8, rotated])
  moreover have "push_bit (Suc k) m = push_bit k (push_bit 1 m)" for k
    by simp
  ultimately show ?thesis
    by (simp add: shifts_left_def)
qed

lemma shifts_left_double: "m * 2 \<noteq> 0 \<Longrightarrow> shifts_left (m * 2) < shifts_left m"
  using shifts_left_step [of m] by (simp add: push_bit_eq_mult)

subsection \<open>Hardware I/O routines of the header\<close>

definition noInterrupts :: "onewire \<Rightarrow> onewire" where
  "noInterrupts s = s\<lparr>irq := False, trace := IrqOff # trace s\<rparr>"

definition interrupts :: "onewire \<Rightarrow> onewire" where
  "interrupts s = s\<lparr>irq := True, trace := IrqOn # trace s\<rparr>"

definition delayMicroseconds :: "nat \<Rightarrow> onewire \<Rightarrow> onewire" where
  "delayMicroseconds n s = s\<lparr>trace := Wait (line s) n # trace s\<rparr>"

definition pinRead :: "onewire \<Rightarrow> u8 \<times> onewire" where
  "pinRead s =
     (let v = (if pin s (reads s) AND ioRegisterMask s \<noteq> 0 then 1 else 0)
      in (v, s\<lparr>reads := Suc (reads s), trace := Sample v # trace s\<rparr>))"

definition pinLow :: "onewire \<Rightarrow> onewire" where
  "pinLow s = s\<lparr>ioPORT := ioPORT s AND NOT (ioRegisterMask s)\<rparr>"

definition pinHigh :: "onewire \<Rightarrow> onewire" where
  "pinHigh s = s\<lparr>ioPORT := ioPORT s OR ioRegisterMask s\<rparr>"

definition pinModeInput :: "onewire \<Rightarrow> onewire" where
  "pinModeInput s = pinLow (s\<lparr>ioDDR := ioDDR s AND NOT (ioRegisterMask s)\<rparr>)"

definition pinModeOutput :: "onewire \<Rightarrow> onewire" where
  "pinModeOutput s = s\<lparr>ioDDR := ioDDR s OR ioRegisterMask s\<rparr>"

definition pullupEnable :: "onewire \<Rightarrow> onewire" where
  "pullupEnable s = s\<lparr>pullupPORT := pullupPORT s OR pullupRegisterMask s\<rparr>"

definition pullupDisable :: "onewire \<Rightarrow> onewire" where
  "pullupDisable s = s\<lparr>pullupPORT := pullupPORT s AND NOT (pullupRegisterMask s)\<rparr>"

subsection \<open>Bit transport\<close>

definition writeBit :: "u8 \<Rightarrow> bool \<Rightarrow> onewire \<Rightarrow> onewire" where
  "writeBit v keepInterruptsDisabled s =
     (if v \<noteq> 0 then
        let s = noInterrupts s;
            s = pinLow s;
            s = pinModeOutput s;
            s = delayMicroseconds 10 s;
            s = pinHigh s;
            s = delayMicroseconds 55 s;
            s = pinModeInput s
        in if \<not> keepInterruptsDisabled then interrupts s else s
      else
        let s = noInterrupts s;
            s = pinLow s;
            s = pinModeOutput s;
            s = delayMicroseconds 65 s;
            s = pinHigh s;
            s = delayMicroseconds 5 s;
            s = pinModeInput s
        in if \<not> keepInterruptsDisabled then interrupts s else s)"

definition readBit :: "onewire \<Rightarrow> u8 \<times> onewire" where
  "readBit s =
     (let s = noInterrupts s;
          s = pinLow s;
          s = pinModeOutput s;
          s = delayMicroseconds 5 s;
          s = pinModeInput s;
          s = delayMicroseconds 10 s;
          (result, s) = pinRead s;
          s = interrupts s;
          s = delayMicroseconds 55 s
      in (result, s))"

subsection \<open>Reset and presence detection\<close>

definition ONEWIRE_RETRY_RESETWAITHIGH :: nat where
  "ONEWIRE_RETRY_RESETWAITHIGH = 200"

text \<open>
  The do-while loop that waits for the idle line. \<open>retryCount\<close> is a \<open>uint8_t\<close>; the loop
  gives up (\<open>False\<close>) when the decremented counter reaches 0, before another delay and read.
\<close>

function resetWaitHigh :: "u8 \<Rightarrow> onewire \<Rightarrow> bool \<times> onewire" where
  "resetWaitHigh retryCount s =
     (let retryCount = retryCount - 1 in
      if retryCount = 0 then (False, s)
      else
        let s = delayMicroseconds 5 s;
            (v, s) = pinRead s
        in if v = 0 then resetWaitHigh retryCount s else (True, s))"
  by pat_completeness auto
termination
  by (relation "measure (\<lambda>(retryCount, s). unat (retryCount - 1))")
    (simp_all add: unat_pred_pred_less)

declare resetWaitHigh.simps [simp del]

definition resetAndPresenceDetection :: "onewire \<Rightarrow> bool \<times> onewire" where
  "resetAndPresenceDetection s =
     (let s = noInterrupts s;
          s = pinModeInput s;
          (idle, s) = resetWaitHigh (of_nat ONEWIRE_RETRY_RESETWAITHIGH) s
      in if \<not> idle then (False, s)
         else
           let s = pinLow s;
               s = pinModeOutput s;
               s = interrupts s;
               s = delayMicroseconds 480 s;
               s = noInterrupts s;
               s = pinModeInput s;
               s = delayMicroseconds 60 s;
               (result, s) = pinRead s;
               s = interrupts s;
               s = delayMicroseconds 420 s
           in (result = 0, s))"

subsection \<open>Byte transport\<close>

text \<open>The do-while loop of \<open>writeByte\<close>, from the current mask on.\<close>

function writeByte_loop :: "u8 \<Rightarrow> bool \<Rightarrow> u8 \<Rightarrow> onewire \<Rightarrow> onewire" where
  "writeByte_loop byte pullup mask' s =
     (let s = writeBit (byte AND mask') (if mask' = 0x80 then pullup else False) s;
          mask' = push_bit 1 mask'
      in if mask' \<noteq> 0 then writeByte_loop byte pullup mask' s else s)"
  by pat_completeness auto
termination
  by (relation "measure (\<lambda>(byte, pullup, mask', s). shifts_left mask')")
    (simp_all add: shifts_left_double)

declare writeByte_loop.simps [simp del]

definition writeByte :: "u8 \<Rightarrow> bool \<Rightarrow> onewire \<Rightarrow> onewire" where
  "writeByte byte pullup s =
     (let s = writeByte_loop byte pullup 0x01 s
      in if pullup then
           (if activePullup s then
              (if pullupRegister s then pullupEnable (pinModeInput s)
               else pinModeOutput (pinHigh s))
            else pinModeOutput (pinHigh s))
         else pinModeInput s)"

definition activePullupDisable :: "onewire \<Rightarrow> onewire" where
  "activePullupDisable s =
     (let s = (if activePullup s then
                 (if pullupRegister s then pullupDisable s else pinModeInput s)
               else pinModeInput s)
      in interrupts s)"

text \<open>The do-while loop of \<open>readByte\<close>, from the current \<open>res\<close> and mask on.\<close>

function readByte_loop :: "u8 \<Rightarrow> u8 \<Rightarrow> onewire \<Rightarrow> u8 \<times> onewire" where
  "readByte_loop res mask' s =
     (let (v, s) = readBit s;
          res = (if v \<noteq> 0 then res OR mask' else res);
          mask' = push_bit 1 mask'
      in if mask' \<noteq> 0 then readByte_loop res mask' s else (res, s))"
  by pat_completeness auto
termination
  by (relation "measure (\<lambda>(res, mask', s). shifts_left mask')")
    (simp_all add: shifts_left_double)

declare readByte_loop.simps [simp del]

definition readByte :: "onewire \<Rightarrow> u8 \<times> onewire" where
  "readByte s = readByte_loop 0x00 0x01 s"

section \<open>CRC-8 validation\<close>

text \<open>The eight rounds of \<open>crcUpdate8\<close>, from round \<open>i\<close> on.\<close>

function crcUpdate8_loop :: "nat \<Rightarrow> u8 \<Rightarrow> u8" where
  "crcUpdate8_loop i crc =
     (if i < 8 then
        crcUpdate8_loop (i + 1)
          (if crc AND 0x01 \<noteq> 0 then drop_bit 1 crc XOR 0x8C else drop_bit 1 crc)
      else crc)"
  by pat_completeness auto
termination
  by (relation "measure (\<lambda>(i, crc). 8 - i)") simp_all

declare crcUpdate8_loop.simps [simp del]

definition crcUpdate8 :: "u8 \<Rightarrow> u8 \<Rightarrow> u8" where
  "crcUpdate8 crc data = crcUpdate8_loop 0 (crc XOR data)"

text \<open>
  The for loop of \<open>crc8CheckIButton\<close>. The counter \<open>i\<close> is a \<open>uint8_t\<close> and \<open>dwLen\<close> an
  \<open>unsigned int\<close>; the comparison is made on their values and \<open>i = i + 1\<close> wraps at 256.
  \<open>lpData\<close> is the memory behind the pointer, by offset. The loop need not end: \<open>None\<close> is
  the run that never leaves it.
\<close>

partial_function (option) crc8CheckIButton_loop ::
  "(nat \<Rightarrow> u8) \<Rightarrow> nat \<Rightarrow> u8 \<Rightarrow> u8 \<Rightarrow> u8 option" where
  "crc8CheckIButton_loop lpData dwLen i crc =
     (if unat i < dwLen
      then crc8CheckIButton_loop lpData dwLen (i + 1) (crcUpdate8 crc (lpData (unat i)))
      else Some crc)"

definition crc8CheckIButton :: "(nat \<Rightarrow> u8) \<Rightarrow> nat \<Rightarrow> u8 \<Rightarrow> bool option" where
  "crc8CheckIButton lpData dwLen crcToCheck =
     (case crc8CheckIButton_loop lpData dwLen 0 0 of
        None \<Rightarrow> None
      | Some crc \<Rightarrow> Some (crcUpdate8 crc crcToCheck = 0))"

section \<open>Bus enumeration\<close>

text \<open>
  \<open>adrCurrent[level / 8] &= ~(0x01 << (level % 8))\<close> and
  \<open>adrCurrent[level / 8] |= (0x01 << (level % 8))\<close>. An index of 8 or more is outside the
  array.
\<close>

definition adrClearBit :: "u8 \<Rightarrow> onewire \<Rightarrow> onewire" where
  "adrClearBit level s =
     (let i = unat level div 8
      in if i < 8
         then s\<lparr>adrCurrent := (adrCurrent s)(i := adrCurrent s i AND NOT (push_bit (unat level mod 8) 0x01))\<rparr>
         else s\<lparr>ub := True\<rparr>)"

definition adrSetBit :: "u8 \<Rightarrow> onewire \<Rightarrow> onewire" where
  "adrSetBit level s =
     (let i = unat level div 8
      in if i < 8
         then s\<lparr>adrCurrent := (adrCurrent s)(i := adrCurrent s i OR push_bit (unat level mod 8) 0x01)\<rparr>
         else s\<lparr>ub := True\<rparr>)"

text \<open>
  \<open>this->discoverCallback(this->adrCurrent)\<close>. The callback is the application's; it is
  taken to read the eight bytes it is handed and to leave the driver and the bus alone.
\<close>

definition invokeCallback :: "onewire \<Rightarrow> onewire" where
  "invokeCallback s =
     (case discoverCallback s of
        None \<Rightarrow> s\<lparr>ub := True\<rparr>
      | Some cb \<Rightarrow> s\<lparr>reported := reported s @ [map (adrCurrent s) [0..<8]]\<rparr>)"

text \<open>
  The replay loop \<open>for(i = 0; i < level; i=i+1)\<close> of the collision branch, from \<open>i\<close> on.
\<close>

function replayBits :: "u8 \<Rightarrow> u8 \<Rightarrow> onewire \<Rightarrow> onewire" where
  "replayBits i level s =
     (if i < level then
        let (_, s) = readBit s;
            (_, s) = readBit s;
            s = writeBit
                  (if adrCurrent s (unat i div 8) AND push_bit (unat i mod 8) 0x01 = 0 then 0 else 1)
                  False s
        in replayBits (i + 1) level s
      else s)"
  by pat_completeness auto
termination
  by (relation "measure (\<lambda>(i, level, s). unat level - unat i)")
    (simp_all add: unat_succ word_less_nat_alt)

declare replayBits.simps [simp del]

text \<open>
  The recursive search. \<open>level\<close> is a \<open>uint8_t\<close>. A run of \<open>crc8CheckIButton\<close> that never
  returned would not report anything; with the length 7 passed here it always returns.
\<close>

function discoveryDevicesRecursive :: "u8 \<Rightarrow> bool \<Rightarrow> onewire \<Rightarrow> onewire" where
  "discoveryDevicesRecursive level alarmSearch s =
     (if level = 8 * 8 then
        (if crc8CheckIButton (adrCurrent s) (8 - 1) (adrCurrent s (8 - 1)) = Some True
         then invokeCallback s
         else s)
      else
        let (a, s) = readBit s;
            (b, s) = readBit s
        in if a = 1 \<and> b = 1 then s
           else if a = 0 \<and> b = 1 then
             let s = adrClearBit level s;
                 s = writeBit 0 False s
             in discoveryDevicesRecursive (level + 1) alarmSearch s
           else if a = 1 \<and> b = 0 then
             let s = adrSetBit level s;
                 s = writeBit 1 False s
             in discoveryDevicesRecursive (level + 1) alarmSearch s
           else
             let s = adrClearBit level s;
                 s = writeBit 0 False s;
                 s = discoveryDevicesRecursive (level + 1) alarmSearch s;
                 (present, s) = resetAndPresenceDetection s
             in if \<not> present then s
                else
                  let s = (if \<not> alarmSearch then writeByte 0xF0 False s
                           else writeByte 0xEC False s);
                      s = replayBits 0 level s;
                      s = adrSetBit level s;
                      (_, s) = readBit s;
                      (_, s) = readBit s;
                      s = writeBit 1 False s
                  in discoveryDevicesRecursive (level + 1) alarmSearch s)"
  by pat_completeness auto
termination
  by (relation "measure (\<lambda>(level, alarmSearch, s). unat (64 - level))")
    (simp_all add: unat_level_less)

declare discoveryDevicesRecursive.simps [simp del]

text \<open>
  \<open>discoverDevices\<close>. The function is declared to return an \<open>unsigned int\<close>, and its last
  statement is the call of the recursive search: control reaches the closing brace with no
  \<open>return\<close>. The result is \<open>Some n\<close> where a \<open>return n\<close> is executed and \<open>None\<close> where there
  is none, so that the caller receives no defined value.
\<close>

definition discoverDevices :: "callback option \<Rightarrow> bool \<Rightarrow> onewire \<Rightarrow> nat option \<times> onewire" where
  "discoverDevices callback alarmSearch s =
     (let s = s\<lparr>discoveredDevices := 0\<rparr>;
          s = s\<lparr>discoverCallback := callback\<rparr>
      in if callback = None then (Some 0, s)
         else
           let s = s\<lparr>adrCurrent := fold (\<lambda>i adr. adr(i := 0x00)) [0..<8] (adrCurrent s)\<rparr>;
               (present, s) = resetAndPresenceDetection s
           in if \<not> present then (Some 0, s)
              else
                let s = (if \<not> alarmSearch then writeByte 0xF0 False s
                         else writeByte 0xEC False s);
                    s = discoveryDevicesRecursive 0 alarmSearch s
                in (None, s))"

section \<open>Reference notions for the statements\<close>

text \<open>One round of the checksum: shift right, and XOR with 0x8C when the low bit was set.\<close>

definition crc_round :: "u8 \<Rightarrow> u8" where
  "crc_round crc = (if crc AND 0x01 \<noteq> 0 then drop_bit 1 crc XOR 0x8C else drop_bit 1 crc)"

text \<open>The checksum of a byte sequence: \<open>crcUpdate8\<close> folded over it, from 0.\<close>

fun crc8_from :: "u8 \<Rightarrow> u8 list \<Rightarrow> u8" where
  "crc8_from crc [] = crc"
| "crc8_from crc (d # ds) = crc8_from (crcUpdate8 crc d) ds"

definition crc8 :: "u8 list \<Rightarrow> u8" where
  "crc8 ds = crc8_from 0 ds"

text \<open>
  The drive of the pin while the driver pulls the line low or high. A pin mask of 0 selects
  no pin, and then nothing is driven.
\<close>

definition lowDrive :: "onewire \<Rightarrow> drive" where
  "lowDrive s = (if ioRegisterMask s = 0 then Floating else DrivenLow)"

definition highDrive :: "onewire \<Rightarrow> drive" where
  "highDrive s = (if ioRegisterMask s = 0 then Floating else DrivenHigh)"

text \<open>What the k-th read from now on samples: the masked input register is 0, the line is low.\<close>

definition pinLowAt :: "onewire \<Rightarrow> nat \<Rightarrow> bool" where
  "pinLowAt s k = (pin s (reads s + k) AND ioRegisterMask s = 0)"

definition sampleAt :: "onewire \<Rightarrow> nat \<Rightarrow> u8" where
  "sampleAt s k = (if pinLowAt s k then 0 else 1)"

text \<open>The log of \<open>n\<close> rounds of the idle wait that read the line low, newest first.\<close>

definition pollTrace :: "drive \<Rightarrow> nat \<Rightarrow> event list" where
  "pollTrace d n = concat (replicate n [Sample 0, Wait d 5])"

text \<open>The microseconds for which a log has the pin drive the line low.\<close>

fun driven_low_us :: "event list \<Rightarrow> nat" where
  "driven_low_us [] = 0"
| "driven_low_us (Wait DrivenLow n # es) = n + driven_low_us es"
| "driven_low_us (e # es) = driven_low_us es"

text \<open>
  The driver after its constructor (\<open>pinHigh(); pinModeInput()\<close> on cleared registers), on a
  bus whose input register reads \<open>samples\<close>; with the active pull-up compiled in and a
  pull-up pin configured in the second form.
\<close>

definition power_on :: "u8 \<Rightarrow> (nat \<Rightarrow> u8) \<Rightarrow> onewire" where
  "power_on m samples =
     \<lparr>ioDDR = 0, ioPORT = 0, ioRegisterMask = m, pin = samples, reads = 0, irq = True,
      trace = [], activePullup = False, pullupRegister = False, pullupDDR = 0, pullupPORT = 0,
      pullupRegisterMask = 0, discoverCallback = None, adrCurrent = (\<lambda>i. 0),
      discoveredDevices = 0, reported = [], ub = False\<rparr>"

definition power_on_pullup :: "u8 \<Rightarrow> u8 \<Rightarrow> (nat \<Rightarrow> u8) \<Rightarrow> onewire" where
  "power_on_pullup m pm samples =
     (power_on m samples)\<lparr>activePullup := True, pullupRegister := True, pullupDDR := pm,
        pullupRegisterMask := pm\<rparr>"

text \<open>
  Buses, by what the input register reads: a line that stays low; an idle line with a presence
  pulse at the second read; a line that is low for the first 199 reads and high from then on.
\<close>

definition stuck_low :: "nat \<Rightarrow> u8" where
  "stuck_low k = 0x00"

definition idle_with_presence :: "nat \<Rightarrow> u8" where
  "idle_with_presence k = (if k = 1 then 0x00 else 0xFF)"

definition idle_after_1ms :: "nat \<Rightarrow> u8" where
  "idle_after_1ms k = (if k < 199 then 0x00 else 0xFF)"

text \<open>
  The wire as a slave sees it, from a log in the order of time: the lengths of the low pulses,
  and the bits they carry (a slave samples 15 microseconds after the falling edge, so a low
  pulse shorter than that is a 1).
\<close>

fun low_pulses :: "nat \<Rightarrow> event list \<Rightarrow> nat list" where
  "low_pulses acc [] = (if acc = 0 then [] else [acc])"
| "low_pulses acc (Wait DrivenLow n # es) = low_pulses (acc + n) es"
| "low_pulses acc (Wait d n # es) = (if acc = 0 then [] else [acc]) @ low_pulses 0 es"
| "low_pulses acc (e # es) = low_pulses acc es"

definition written_bits :: "event list \<Rightarrow> bool list" where
  "written_bits es = map (\<lambda>w. w < 15) (low_pulses 0 es)"

text \<open>The events that took the log of \<open>s\<close> to that of \<open>s'\<close>, in the order of time.\<close>

definition events_since :: "onewire \<Rightarrow> onewire \<Rightarrow> event list" where
  "events_since s s' = rev (take (length (trace s') - length (trace s)) (trace s'))"

text \<open>A bus that answers the k-th read with the k-th bit of a list.\<close>

definition loopback :: "bool list \<Rightarrow> nat \<Rightarrow> u8" where
  "loopback bs k = (if k < length bs \<and> bs ! k then 0xFF else 0x00)"

text \<open>The log of one write slot and of the eight slots of a byte, newest first.\<close>

definition slot :: "u8 \<Rightarrow> bool \<Rightarrow> onewire \<Rightarrow> event list" where
  "slot v keep s =
     (if keep then [] else [IrqOn]) @
     (if v \<noteq> 0 then [Wait (highDrive s) 55, Wait (lowDrive s) 10]
      else [Wait (highDrive s) 5, Wait (lowDrive s) 65]) @ [IrqOff]"

definition byte_slots :: "u8 \<Rightarrow> bool \<Rightarrow> onewire \<Rightarrow> event list" where
  "byte_slots byte pullup s =
     slot (byte AND 0x80) pullup s @ slot (byte AND 0x40) False s @ slot (byte AND 0x20) False s @
     slot (byte AND 0x10) False s @ slot (byte AND 0x08) False s @ slot (byte AND 0x04) False s @
     slot (byte AND 0x02) False s @ slot (byte AND 0x01) False s"


text \<open>A device identifier with a valid checksum (family code 0x28), as memory by offset.\<close>

definition rom_DS18B20 :: "nat \<Rightarrow> u8" where
  "rom_DS18B20 i = (if i < 8 then [0x28, 0xFF, 0x4B, 0x45, 0x92, 0x16, 0x04, 0xF0] ! i else 0)"


text \<open>
  Notions of the search: the state after a bit and its complement were read (and the values
  dropped); the command byte of the search; bit \<open>i\<close> of the identifier buffer; one round of
  the replay, which reads and drops a pair and writes a bit back.
\<close>

definition twoReads :: "onewire \<Rightarrow> onewire" where
  "twoReads s = snd (readBit (snd (readBit s)))"

definition searchCommand :: "bool \<Rightarrow> u8" where
  "searchCommand alarmSearch = (if alarmSearch then 0xEC else 0xF0)"

definition recordedBit :: "onewire \<Rightarrow> nat \<Rightarrow> bool" where
  "recordedBit s i = bit (adrCurrent s (i div 8)) (i mod 8)"

definition replayStep :: "bool \<Rightarrow> onewire \<Rightarrow> onewire" where
  "replayStep b s = writeBit (if b then 1 else 0) False (snd (readBit (snd (readBit s))))"

text \<open>
  An identifier is valid when it has eight bytes whose checksum is 0, that is, whose last byte
  is the checksum of the seven before it. \<open>reports_more s s'\<close>: the callback log of \<open>s'\<close> is
  that of \<open>s\<close> followed by valid identifiers only.
\<close>

definition valid_id :: "u8 list \<Rightarrow> bool" where
  "valid_id rom = (length rom = 8 \<and> crc8 rom = 0 \<and> rom ! 7 = crc8 (take 7 rom))"

definition reports_more :: "onewire \<Rightarrow> onewire \<Rightarrow> bool" where
  "reports_more s s' = (\<exists>ys. reported s' = reported s @ ys \<and> (\<forall>rom \<in> set ys. valid_id rom))"

text \<open>
  What a bus with one device reads during a search: an idle line, the presence pulse, and then
  each bit of the identifier followed by its complement, least significant bit of the first
  byte first. \<open>one_device\<close> is that script for the identifier 28 FF 4B 45 92 16 04 F0.
\<close>

definition search_samples :: "u8 list \<Rightarrow> bool list" where
  "search_samples rom =
     True # False # concat (map (\<lambda>byte. concat (map (\<lambda>i. [bit byte i, \<not> bit byte i]) [0..<8])) rom)"

definition one_device :: "bool list" where
  "one_device = [True, False, False, True, False, True, False, True, True, False, False, True, True, False, False, True, False, True, True, False, True, False, True, False, True, False, True, False, True, False, True, False, True, False, True, False, True, False, False, True, True, False, False, True, False, True, True, False, False, True, True, False, False, True, True, False, False, True, False, True, False, True, True, False, False, True, False, True, True, False, False, True, False, True, True, False, False, True, False, True, True, False, False, True, True, False, True, False, False, True, True, False, False, True, False, True, False, True, False, True, False, True, True, False, False, True, False, True, False, True, False, True, False, True, False, True, False, True, False, True, False, True, True, False, True, False, True, False, True, False]"


text \<open>
  More identifiers: one whose checksum byte 0x37 has its top bit clear, and one with a wrong
  checksum byte. \<open>searching rom samples\<close> is a driver in the middle of a search, its callback
  set and its buffer holding \<open>rom\<close>. \<open>cleared callback s\<close> is the driver as \<open>discoverDevices\<close>
  has it before its first reset: counter 0, callback stored, buffer zeroed.
\<close>

definition rom_DS1820 :: "nat \<Rightarrow> u8" where
  "rom_DS1820 i = (if i < 8 then [0x10, 0x50, 0xA9, 0x0A, 0x02, 0x08, 0x00, 0x37] ! i else 0)"

definition rom_corrupted :: "nat \<Rightarrow> u8" where
  "rom_corrupted i = (if i < 8 then [0x28, 0xFF, 0x4B, 0x45, 0x92, 0x16, 0x04, 0xF1] ! i else 0)"

definition searching :: "(nat \<Rightarrow> u8) \<Rightarrow> (nat \<Rightarrow> u8) \<Rightarrow> onewire" where
  "searching rom samples =
     (power_on 0x04 samples)\<lparr>discoverCallback := Some (Callback 1), adrCurrent := rom\<rparr>"

definition cleared :: "callback option \<Rightarrow> onewire \<Rightarrow> onewire" where
  "cleared callback s =
     s\<lparr>discoveredDevices := 0\<rparr>\<lparr>discoverCallback := callback\<rparr>
      \<lparr>adrCurrent := fold (\<lambda>i adr. adr(i := 0x00)) [0..<8]
         (adrCurrent (s\<lparr>discoveredDevices := 0\<rparr>\<lparr>discoverCallback := callback\<rparr>))\<rparr>"


text \<open>
  What a bus reads when two devices part at the bit where a search stands, with no device left
  one bit further down either branch: the collision, a dead end, idle line and presence pulse
  of the restart, the pairs of the replay and of the collision again, and a dead end.
\<close>

definition two_branches :: "bool list" where
  "two_branches = [False, False, True, True, True, False, False, True, True, False,
                   False, False, True, True]"


section \<open>The checksum\<close>

lemma crcUpdate8_loop_rounds: "i \<le> 8 \<Longrightarrow> crcUpdate8_loop i crc = (crc_round ^^ (8 - i)) crc"
proof (induction i crc rule: crcUpdate8_loop.induct)
  case (1 i crc)
  show ?case
  proof (cases "i < 8")
    case True
    have step: "crcUpdate8_loop i crc = crcUpdate8_loop (i + 1) (crc_round crc)"
      by (subst crcUpdate8_loop.simps) (simp only: True if_True crc_round_def)
    from True have le: "i + 1 \<le> 8"
      by simp
    have "crcUpdate8_loop (i + 1) (crc_round crc) = (crc_round ^^ (8 - (i + 1))) (crc_round crc)"
      by (rule "1.IH" [OF True le, folded crc_round_def])
    moreover from True have "8 - i = Suc (8 - (i + 1))"
      by simp
    ultimately show ?thesis
      by (simp only: step funpow_Suc_right o_apply)
  next
    case False
    with 1 show ?thesis
      by (subst crcUpdate8_loop.simps) simp
  qed
qed

lemma crcUpdate8_rounds: "crcUpdate8 crc d = (crc_round ^^ 8) (crc XOR d)"
  by (simp add: crcUpdate8_def crcUpdate8_loop_rounds)

lemma drop_bit_xor_8C: "drop_bit 1 (x :: u8) XOR 0x8C \<noteq> 0"
proof
  assume "drop_bit 1 x XOR 0x8C = 0"
  then have "bit (drop_bit 1 x XOR (0x8C :: u8)) 7 = bit (0 :: u8) 7"
    by simp
  then show False
    by (auto simp add: bit_simps dest: bit_imp_le_length)
qed

lemma crc_round_zero: "crc_round x = 0 \<longleftrightarrow> x = 0"
proof
  assume r: "crc_round x = 0"
  show "x = 0"
  proof (cases "x AND 1 = 0")
    case True
    with r have d: "drop_bit 1 x = 0"
      by (simp add: crc_round_def)
    from True have b0: "\<not> bit x 0"
      by (simp add: and_one_eq mod_2_eq_odd bit_0)
    have "\<not> bit x n" for n
    proof (cases n)
      case 0
      with b0 show ?thesis by simp
    next
      case (Suc k)
      have "bit (drop_bit 1 x) k = bit x (Suc k)"
        by (simp add: bit_drop_bit_eq)
      with d Suc show ?thesis by simp
    qed
    then show ?thesis
      by (simp add: bit_eq_iff)
  next
    case False
    with r show ?thesis
      using drop_bit_xor_8C [of x] by (simp add: crc_round_def)
  qed
next
  assume "x = 0"
  then show "crc_round x = 0"
    by (simp add: crc_round_def)
qed

lemma crc_rounds_zero: "(crc_round ^^ n) x = 0 \<longleftrightarrow> x = 0"
  by (induction n arbitrary: x) (simp_all add: crc_round_zero)

lemma xor_zero_iff: "(a :: u8) XOR b = 0 \<longleftrightarrow> a = b"
  by (auto simp add: bit_eq_iff bit_simps)

lemma crcUpdate8_zero: "crcUpdate8 crc d = 0 \<longleftrightarrow> crc = d"
  by (simp add: crcUpdate8_rounds crc_rounds_zero xor_zero_iff)

lemma crc8_from_snoc: "crc8_from crc (ds @ [c]) = crcUpdate8 (crc8_from crc ds) c"
  by (induction ds arbitrary: crc) simp_all

lemma crc8_snoc: "crc8 (ds @ [c]) = crcUpdate8 (crc8 ds) c"
  by (simp add: crc8_def crc8_from_snoc)

lemma crc8CheckIButton_loop_returns:
  "dwLen \<le> 255 \<Longrightarrow> unat i \<le> dwLen \<Longrightarrow>
   crc8CheckIButton_loop lpData dwLen i crc =
     Some (crc8_from crc (map lpData [unat i..<dwLen]))"
proof (induction "dwLen - unat i" arbitrary: i crc)
  case 0
  then have "unat i = dwLen" by simp
  then show ?case
    by (subst crc8CheckIButton_loop.simps) simp
next
  case (Suc n)
  then have lt: "unat i < dwLen" by simp
  with Suc.prems have "i < 255"
    by (simp add: word_less_nat_alt)
  then have u: "unat (i + 1) = Suc (unat i)"
    by (rule unat_succ)
  with Suc lt have "crc8CheckIButton_loop lpData dwLen (i + 1) (crcUpdate8 crc (lpData (unat i))) =
     Some (crc8_from (crcUpdate8 crc (lpData (unat i))) (map lpData [unat (i + 1)..<dwLen]))"
    by simp
  with lt u show ?case
    by (subst crc8CheckIButton_loop.simps) (simp add: upt_conv_Cons)
qed

lemma crc8CheckIButton_loop_diverges:
  assumes "crc8CheckIButton_loop lpData dwLen i crc = Some r"
  shows "dwLen \<le> 255"
proof (rule crc8CheckIButton_loop.raw_induct [where P = "\<lambda>lpData dwLen i crc r. dwLen \<le> 255", OF _ assms])
  fix f :: "(nat \<Rightarrow> u8) \<Rightarrow> nat \<Rightarrow> u8 \<Rightarrow> u8 \<Rightarrow> u8 option" and lpData dwLen i crc r
  assume IH: "\<And>lpData dwLen i crc r. f lpData dwLen i crc = Some r \<Longrightarrow> dwLen \<le> 255"
    and body: "(if unat i < dwLen then f lpData dwLen (i + 1) (crcUpdate8 crc (lpData (unat i)))
                else Some crc) = Some r"
  have "unat i \<le> 255"
    using unsigned_less [of i, where 'a = nat] by simp
  with IH body show "dwLen \<le> 255"
    by (auto split: if_splits)
qed

lemma crc8CheckIButton_eq:
  "dwLen \<le> 255 \<Longrightarrow>
   crc8CheckIButton lpData dwLen c = Some (crcUpdate8 (crc8 (map lpData [0..<dwLen])) c = 0)"
  by (simp add: crc8CheckIButton_def crc8CheckIButton_loop_returns crc8_def)

lemma crc8CheckIButton_None:
  "256 \<le> dwLen \<Longrightarrow> crc8CheckIButton lpData dwLen c = None"
proof -
  assume big: "256 \<le> dwLen"
  have "crc8CheckIButton_loop lpData dwLen 0 0 = None"
  proof (cases "crc8CheckIButton_loop lpData dwLen 0 0")
    case None
    then show ?thesis .
  next
    case (Some r)
    then have "dwLen \<le> 255"
      by (rule crc8CheckIButton_loop_diverges)
    with big show ?thesis by simp
  qed
  then show ?thesis
    by (simp add: crc8CheckIButton_def)
qed

lemmas crc_eval = crc8_def crcUpdate8_def crcUpdate8_loop.simps

lemma crc8_maxim_check: "crc8 [0x31, 0x32, 0x33, 0x34, 0x35, 0x36, 0x37, 0x38, 0x39] = 0xA1"
  by (simp add: crc_eval)

text \<open>
  For lengths up to 255, where the function returns: it starts the running checksum at 0,
  folds in the data bytes (each one XORed in and followed by eight rounds that shift right and
  XOR 0x8C when the low bit was set), folds in \<open>c\<close> the same way and returns true iff the
  result is 0. For every byte sequence, appending its checksum makes the fold 0, and so the
  validation succeeds exactly when \<open>c\<close> is the checksum of the data.
\<close>

theorem crc8CheckIButton_validates:
  assumes "dwLen \<le> 255"
  shows "crc8CheckIButton lpData dwLen c = Some (crcUpdate8 (crc8 (map lpData [0..<dwLen])) c = 0)
       \<and> crcUpdate8 crc d = (crc_round ^^ 8) (crc XOR d)
       \<and> crc8 (ds @ [crc8 ds]) = 0
       \<and> crc8CheckIButton lpData dwLen c = Some (c = crc8 (map lpData [0..<dwLen]))"
proof -
  have "crc8CheckIButton lpData dwLen c = Some (crcUpdate8 (crc8 (map lpData [0..<dwLen])) c = 0)"
    using assms by (rule crc8CheckIButton_eq)
  moreover have "crcUpdate8 crc d = (crc_round ^^ 8) (crc XOR d)"
    by (rule crcUpdate8_rounds)
  moreover have "crc8 (ds @ [crc8 ds]) = 0"
    by (simp only: crc8_snoc crcUpdate8_zero)
  moreover have "(crcUpdate8 (crc8 (map lpData [0..<dwLen])) c = 0) = (c = crc8 (map lpData [0..<dwLen]))"
    by (auto simp only: crcUpdate8_zero)
  ultimately show ?thesis
    by (simp only: simp_thms)
qed

theorem crc8CheckIButton_validates_witness:
  "(7 :: nat) \<le> 255 \<and> crc8CheckIButton rom_DS18B20 7 0xF0 = Some True
   \<and> crc8CheckIButton rom_DS18B20 7 0xF1 = Some False
   \<and> crc8 ([0x28, 0xFF, 0x4B, 0x45, 0x92, 0x16, 0x04] @ [0xF0]) = 0"
proof -
  have c: "crc8 [0x28, 0xFF, 0x4B, 0x45, 0x92, 0x16, 0x04] = 0xF0"
    by (simp add: crc_eval)
  have m: "map rom_DS18B20 [0..<7] = [0x28, 0xFF, 0x4B, 0x45, 0x92, 0x16, 0x04]"
    by (simp add: rom_DS18B20_def upt_conv_Cons)
  have le: "(7 :: nat) \<le> 255"
    by simp
  show ?thesis
    using crc8CheckIButton_validates [OF le, of rom_DS18B20 "0xF0" 0 0 "[0x28, 0xFF, 0x4B, 0x45, 0x92, 0x16, 0x04]"]
      crc8CheckIButton_validates [OF le, of rom_DS18B20 "0xF1" 0 0 "[]"]
    by (simp add: c m crcUpdate8_zero)
qed

lemma crc8_from_zeros: "crc8_from 0 (replicate n 0) = 0"
proof (induction n)
  case 0
  show ?case by simp
next
  case (Suc n)
  have "crcUpdate8 0 0 = 0"
    by (simp add: crcUpdate8_zero)
  with Suc show ?case
    by simp
qed

text \<open>
  Claim C3. \<open>crc8CheckIButton(d, n, c)\<close> folds the \<open>n\<close> data bytes and then \<open>c\<close> into a
  checksum that starts at 0 and returns true iff the result is 0, so that for every byte
  sequence the validation succeeds exactly when \<open>c\<close> is its checksum. The code does so for up
  to 255 bytes. For 256 zero bytes and \<open>c = 0\<close>, their checksum, the 8-bit counter never
  reaches the length and the call does not return.
\<close>

theorem crc8CheckIButton_256_bytes_never_validated:
  "crc8 (map (\<lambda>i. 0x00) [0..<256]) = 0x00
   \<and> crc8CheckIButton (\<lambda>i. 0x00) 256 0x00 = None
   \<and> crc8CheckIButton (\<lambda>i. 0x00) 255 0x00 = Some True"
proof -
  have "map (\<lambda>i. 0x00 :: u8) [0..<n] = replicate n 0" for n
    by (simp add: map_replicate_const)
  then have sum: "crc8 (map (\<lambda>i. 0x00) [0..<n]) = 0x00" for n
    by (simp add: crc8_def crc8_from_zeros)
  have "crc8CheckIButton (\<lambda>i. 0x00) 256 0x00 = None"
    by (rule crc8CheckIButton_None) simp
  moreover have "crc8CheckIButton (\<lambda>i. 0x00) 255 0x00 = Some True"
    by (simp add: crc8CheckIButton_eq sum crcUpdate8_zero)
  ultimately show ?thesis
    using sum [of 256] by simp
qed

text \<open>
  Claim C10. The loop counter of \<open>crc8CheckIButton\<close> has 8 bits and is compared with the
  \<open>unsigned int\<close> length: the function returns for every length up to 255 (the driver itself
  passes 7), and for a length of 256 or more the counter wraps and the loop is never left.
\<close>

theorem crc8CheckIButton_counter_wraps:
  "(dwLen \<le> 255 \<longrightarrow> (\<exists>r. crc8CheckIButton lpData dwLen c = Some r))
   \<and> (256 \<le> dwLen \<longrightarrow> crc8CheckIButton lpData dwLen c = None)"
  by (simp add: crc8CheckIButton_eq crc8CheckIButton_None)

theorem crc8CheckIButton_counter_wraps_witness:
  "(\<exists>r. crc8CheckIButton rom_DS18B20 7 0xF0 = Some r)
   \<and> crc8CheckIButton rom_DS18B20 256 0xF0 = None"
  using crc8CheckIButton_counter_wraps [of 7 rom_DS18B20 "0xF0"]
    crc8CheckIButton_counter_wraps [of 256 rom_DS18B20 "0xF0"]
  by simp

section \<open>The port and the bit slots\<close>

lemma or_and_mask: "(x OR m) AND m = (m :: u8)"
  by (auto simp add: bit_eq_iff bit_simps)

lemma andnot_and_mask: "(x AND NOT m) AND m = (0 :: u8)"
  by (auto simp add: bit_eq_iff bit_simps)

lemma or_andnot_mask: "(x OR m) AND NOT m = x AND NOT (m :: u8)"
  by (auto simp add: bit_eq_iff bit_simps)

lemma andnot_andnot_mask: "(x AND NOT m) AND NOT m = x AND NOT (m :: u8)"
  by (auto simp add: bit_eq_iff bit_simps)

lemma andnot_or_mask: "(x AND NOT m) OR m = x OR (m :: u8)"
  by (auto simp add: bit_eq_iff bit_simps)

lemmas mask_simps = or_and_mask andnot_and_mask or_andnot_mask andnot_andnot_mask andnot_or_mask

lemmas hw_defs = noInterrupts_def interrupts_def delayMicroseconds_def pinRead_def pinLow_def
  pinHigh_def pinModeInput_def pinModeOutput_def line_def

lemma readBit_eq:
  "readBit s =
     (sampleAt s 0,
      s\<lparr>ioDDR := ioDDR s AND NOT (ioRegisterMask s),
        ioPORT := ioPORT s AND NOT (ioRegisterMask s),
        reads := Suc (reads s), irq := True,
        trace := Wait Floating 55 # IrqOn # Sample (sampleAt s 0) # Wait Floating 10 #
                 Wait (lowDrive s) 5 # IrqOff # trace s\<rparr>)"
  unfolding readBit_def Let_def
  by (simp add: hw_defs mask_simps sampleAt_def pinLowAt_def lowDrive_def)

lemma writeBit_eq:
  "writeBit v keep s =
     s\<lparr>ioDDR := ioDDR s AND NOT (ioRegisterMask s),
       ioPORT := ioPORT s AND NOT (ioRegisterMask s),
       irq := \<not> keep,
       trace := (if keep then [] else [IrqOn]) @
                (if v \<noteq> 0 then [Wait (highDrive s) 55, Wait (lowDrive s) 10]
                 else [Wait (highDrive s) 5, Wait (lowDrive s) 65]) @ IrqOff # trace s\<rparr>"
  unfolding writeBit_def Let_def
  by (simp add: hw_defs mask_simps highDrive_def lowDrive_def)

subsection \<open>Reset and presence detection\<close>

lemma pollTrace_Suc: "pollTrace d (Suc n) = pollTrace d n @ [Sample 0, Wait d 5]"
  by (induction n) (simp_all add: pollTrace_def)

lemma resetWaitHigh_step:
  "resetWaitHigh rc s =
     (if rc - 1 = 0 then (False, s)
      else if pinLowAt s 0
        then resetWaitHigh (rc - 1) (s\<lparr>reads := Suc (reads s), trace := Sample 0 # Wait (line s) 5 # trace s\<rparr>)
        else (True, s\<lparr>reads := Suc (reads s), trace := Sample 1 # Wait (line s) 5 # trace s\<rparr>))"
  by (subst resetWaitHigh.simps) (simp add: Let_def hw_defs pinLowAt_def)

lemma pinLowAt_polled [simp]:
  "pinLowAt (s\<lparr>reads := Suc (reads s), trace := tr\<rparr>) k = pinLowAt s (Suc k)"
  by (simp add: pinLowAt_def)

lemma resetWaitHigh_giveup:
  "\<forall>k < unat (rc - 1). pinLowAt s k \<Longrightarrow>
   resetWaitHigh rc s =
     (False, s\<lparr>reads := reads s + unat (rc - 1), trace := pollTrace (line s) (unat (rc - 1)) @ trace s\<rparr>)"
proof (induction "unat (rc - 1)" arbitrary: rc s)
  case 0
  then have "rc - 1 = 0"
    by (simp add: unat_eq_zero)
  then show ?case
    by (subst resetWaitHigh_step) (simp add: pollTrace_def)
next
  case (Suc n)
  let ?s1 = "s\<lparr>reads := Suc (reads s), trace := Sample 0 # Wait (line s) 5 # trace s\<rparr>"
  from Suc.hyps(2) have nz: "rc - 1 \<noteq> 0"
    by auto
  then have n: "n = unat (rc - 1 - 1)"
    using unat_minus_one [OF nz] Suc.hyps(2) by simp
  from Suc.prems Suc.hyps(2) have low0: "pinLowAt s 0"
    by (metis zero_less_Suc)
  have "pinLowAt s (Suc k)" if "k < n" for k
    using that Suc.prems Suc.hyps(2) by (metis Suc_less_eq)
  then have "\<forall>k < unat (rc - 1 - 1). pinLowAt ?s1 k"
    using n by simp
  with Suc.hyps(1) [OF n] have
    "resetWaitHigh (rc - 1) ?s1 =
       (False, ?s1\<lparr>reads := reads ?s1 + unat (rc - 1 - 1),
                    trace := pollTrace (line ?s1) (unat (rc - 1 - 1)) @ trace ?s1\<rparr>)"
    by blast
  with nz low0 n Suc.hyps(2) [symmetric] show ?case
    by (subst resetWaitHigh_step) (simp add: pollTrace_Suc line_def)
qed

lemma resetWaitHigh_idle:
  "n < unat (rc - 1) \<Longrightarrow> \<forall>k < n. pinLowAt s k \<Longrightarrow> \<not> pinLowAt s n \<Longrightarrow>
   resetWaitHigh rc s =
     (True, s\<lparr>reads := reads s + Suc n,
              trace := Sample 1 # Wait (line s) 5 # pollTrace (line s) n @ trace s\<rparr>)"
proof (induction n arbitrary: rc s)
  case 0
  then have "rc - 1 \<noteq> 0"
    by auto
  with 0 show ?case
    by (subst resetWaitHigh_step) (simp add: pollTrace_def)
next
  case (Suc n)
  let ?s1 = "s\<lparr>reads := Suc (reads s), trace := Sample 0 # Wait (line s) 5 # trace s\<rparr>"
  from Suc.prems(1) have nz: "rc - 1 \<noteq> 0"
    by auto
  then have "unat (rc - 1 - 1) = unat (rc - 1) - 1"
    using unat_minus_one [OF nz] by simp
  with Suc.prems(1) have lt: "n < unat (rc - 1 - 1)"
    by simp
  from Suc.prems(2) have low0: "pinLowAt s 0"
    by simp
  have "pinLowAt s (Suc k)" if "k < n" for k
    using that Suc.prems(2) by (metis Suc_less_eq)
  then have "\<forall>k < n. pinLowAt ?s1 k" and "\<not> pinLowAt ?s1 n"
    using Suc.prems(3) by simp_all
  with Suc.IH [OF lt] have
    "resetWaitHigh (rc - 1) ?s1 =
       (True, ?s1\<lparr>reads := reads ?s1 + Suc n,
                   trace := Sample 1 # Wait (line ?s1) 5 # pollTrace (line ?s1) n @ trace ?s1\<rparr>)"
    by blast
  with nz low0 show ?case
    by (subst resetWaitHigh_step) (simp add: pollTrace_Suc line_def)
qed


lemma retry_budget: "unat ((of_nat ONEWIRE_RETRY_RESETWAITHIGH :: u8) - 1) = ONEWIRE_RETRY_RESETWAITHIGH - 1"
  by (simp add: ONEWIRE_RETRY_RESETWAITHIGH_def)

lemma resetAndPresenceDetection_giveup:
  assumes "\<forall>k < ONEWIRE_RETRY_RESETWAITHIGH - 1. pinLowAt s k"
  shows "resetAndPresenceDetection s =
     (False,
      s\<lparr>ioDDR := ioDDR s AND NOT (ioRegisterMask s),
        ioPORT := ioPORT s AND NOT (ioRegisterMask s),
        reads := reads s + (ONEWIRE_RETRY_RESETWAITHIGH - 1), irq := False,
        trace := pollTrace Floating (ONEWIRE_RETRY_RESETWAITHIGH - 1) @ IrqOff # trace s\<rparr>)"
proof -
  let ?s0 = "pinModeInput (noInterrupts s)"
  have "\<forall>k < unat ((of_nat ONEWIRE_RETRY_RESETWAITHIGH :: u8) - 1). pinLowAt ?s0 k"
    using assms by (simp add: retry_budget) (simp add: pinLowAt_def hw_defs)
  then have "resetWaitHigh (of_nat ONEWIRE_RETRY_RESETWAITHIGH) ?s0 =
     (False, ?s0\<lparr>reads := reads ?s0 + (ONEWIRE_RETRY_RESETWAITHIGH - 1),
                   trace := pollTrace (line ?s0) (ONEWIRE_RETRY_RESETWAITHIGH - 1) @ trace ?s0\<rparr>)"
    by (simp only: resetWaitHigh_giveup retry_budget)
  then show ?thesis
    unfolding resetAndPresenceDetection_def Let_def
    by (simp add: hw_defs mask_simps)
qed

lemma resetAndPresenceDetection_idle:
  assumes "n < ONEWIRE_RETRY_RESETWAITHIGH - 1" and "\<forall>k < n. pinLowAt s k" and "\<not> pinLowAt s n"
  shows "resetAndPresenceDetection s =
     (pinLowAt s (Suc n),
      s\<lparr>ioDDR := ioDDR s AND NOT (ioRegisterMask s),
        ioPORT := ioPORT s AND NOT (ioRegisterMask s),
        reads := reads s + n + 2, irq := True,
        trace := Wait Floating 420 # IrqOn # Sample (sampleAt s (Suc n)) # Wait Floating 60 #
                 IrqOff # Wait (lowDrive s) 480 # IrqOn #
                 Sample 1 # Wait Floating 5 # pollTrace Floating n @ IrqOff # trace s\<rparr>)"
proof -
  let ?s0 = "pinModeInput (noInterrupts s)"
  have "n < unat ((of_nat ONEWIRE_RETRY_RESETWAITHIGH :: u8) - 1)"
    and "\<forall>k < n. pinLowAt ?s0 k" and "\<not> pinLowAt ?s0 n"
    using assms by (simp_all add: retry_budget) (simp_all add: pinLowAt_def hw_defs)
  then have "resetWaitHigh (of_nat ONEWIRE_RETRY_RESETWAITHIGH) ?s0 =
     (True, ?s0\<lparr>reads := reads ?s0 + Suc n,
                  trace := Sample 1 # Wait (line ?s0) 5 # pollTrace (line ?s0) n @ trace ?s0\<rparr>)"
    by (rule resetWaitHigh_idle)
  then show ?thesis
    unfolding resetAndPresenceDetection_def Let_def
    by (simp add: hw_defs mask_simps lowDrive_def sampleAt_def pinLowAt_def)
qed

lemma first_idle_poll:
  assumes "\<not> (\<forall>k < N. pinLowAt s k)"
  obtains n where "n < N" and "\<forall>k < n. pinLowAt s k" and "\<not> pinLowAt s n"
proof -
  from assms have "\<exists>n. n < N \<and> \<not> pinLowAt s n"
    by blast
  then obtain n where "n < N \<and> \<not> pinLowAt s n" and least: "\<forall>m < n. \<not> (m < N \<and> \<not> pinLowAt s m)"
    by (auto simp only: exists_least_iff [of "\<lambda>n. n < N \<and> \<not> pinLowAt s n"])
  then show thesis
    using that [of n] by (metis less_trans)
qed

lemma driven_low_us_pollTrace: "driven_low_us (pollTrace Floating n @ es) = driven_low_us es"
  by (induction n) (simp_all add: pollTrace_def)

text \<open>
  Claim C9. When \<open>resetAndPresenceDetection\<close> gives up because every read of its idle wait
  found the line low, it returns false with interrupts still disabled; on every other path it
  returns with interrupts enabled.
\<close>

theorem reset_early_return_leaves_interrupts_disabled:
  "(if \<forall>k < ONEWIRE_RETRY_RESETWAITHIGH - 1. pinLowAt s k
    then \<not> fst (resetAndPresenceDetection s) \<and> \<not> irq (snd (resetAndPresenceDetection s))
    else irq (snd (resetAndPresenceDetection s)))"
proof (cases "\<forall>k < ONEWIRE_RETRY_RESETWAITHIGH - 1. pinLowAt s k")
  case True
  then show ?thesis
    by (simp add: resetAndPresenceDetection_giveup)
next
  case False
  then obtain n where "n < ONEWIRE_RETRY_RESETWAITHIGH - 1" and "\<forall>k < n. pinLowAt s k"
    and "\<not> pinLowAt s n"
    by (rule first_idle_poll)
  then have "irq (snd (resetAndPresenceDetection s))"
    by (simp add: resetAndPresenceDetection_idle)
  with False show ?thesis
    by simp
qed

theorem reset_early_return_leaves_interrupts_disabled_witness:
  "\<not> fst (resetAndPresenceDetection (power_on 0x04 stuck_low))
   \<and> \<not> irq (snd (resetAndPresenceDetection (power_on 0x04 stuck_low)))
   \<and> irq (snd (resetAndPresenceDetection (power_on 0x04 idle_with_presence)))"
proof -
  have "\<forall>k < ONEWIRE_RETRY_RESETWAITHIGH - 1. pinLowAt (power_on 0x04 stuck_low) k"
    by (simp add: pinLowAt_def power_on_def stuck_low_def)
  moreover have "\<not> (\<forall>k < ONEWIRE_RETRY_RESETWAITHIGH - 1. pinLowAt (power_on 0x04 idle_with_presence) k)"
    by (auto simp add: pinLowAt_def power_on_def idle_with_presence_def ONEWIRE_RETRY_RESETWAITHIGH_def
        intro!: exI [of _ 0])
  ultimately show ?thesis
    using reset_early_return_leaves_interrupts_disabled [of "power_on 0x04 stuck_low"]
      reset_early_return_leaves_interrupts_disabled [of "power_on 0x04 idle_with_presence"]
    by simp
qed

text \<open>
  Claim C4. The claim gives the idle wait a budget of \<open>ONEWIRE_RETRY_RESETWAITHIGH\<close> = 200 reads.
  The loop decrements the counter before it waits and reads, so it reads the line 199 times at
  most: on a line that is low for 199 reads and high at the 200th, the function returns false
  after 199 reads without driving the line low, and the 200th read is never made.
\<close>

theorem reset_gives_up_after_199_polls:
  "\<not> pinLowAt (power_on 0x04 idle_after_1ms) 199
   \<and> \<not> fst (resetAndPresenceDetection (power_on 0x04 idle_after_1ms))
   \<and> reads (snd (resetAndPresenceDetection (power_on 0x04 idle_after_1ms))) = 199
   \<and> driven_low_us (trace (snd (resetAndPresenceDetection (power_on 0x04 idle_after_1ms)))) = 0"
proof -
  have "\<forall>k < ONEWIRE_RETRY_RESETWAITHIGH - 1. pinLowAt (power_on 0x04 idle_after_1ms) k"
    by (simp add: pinLowAt_def power_on_def idle_after_1ms_def ONEWIRE_RETRY_RESETWAITHIGH_def)
  then show ?thesis
    by (simp add: resetAndPresenceDetection_giveup driven_low_us_pollTrace)
      (simp add: pinLowAt_def power_on_def idle_after_1ms_def ONEWIRE_RETRY_RESETWAITHIGH_def)
qed

section \<open>Byte transport and the pull-up hold\<close>

lemma writeBit_slot:
  "writeBit v keep s =
     s\<lparr>ioDDR := ioDDR s AND NOT (ioRegisterMask s),
       ioPORT := ioPORT s AND NOT (ioRegisterMask s),
       irq := \<not> keep, trace := slot v keep s @ trace s\<rparr>"
  by (simp add: writeBit_eq slot_def)

lemma slot_writeBit [simp]: "slot v keep (writeBit w k s) = slot v keep s"
  by (simp add: writeBit_eq slot_def highDrive_def lowDrive_def)

lemma writeByte_loop_unrolled:
  "writeByte_loop byte pullup 0x01 s =
     writeBit (byte AND 0x80) pullup
       (writeBit (byte AND 0x40) False
         (writeBit (byte AND 0x20) False
           (writeBit (byte AND 0x10) False
             (writeBit (byte AND 0x08) False
               (writeBit (byte AND 0x04) False
                 (writeBit (byte AND 0x02) False
                   (writeBit (byte AND 0x01) False s)))))))"
  by (simp add: writeByte_loop.simps Let_def)


lemma writeBit_fields [simp]:
  "ioRegisterMask (writeBit v keep s) = ioRegisterMask s"
  "irq (writeBit v keep s) = (\<not> keep)"
  "trace (writeBit v keep s) = slot v keep s @ trace s"
  "activePullup (writeBit v keep s) = activePullup s"
  "pullupRegister (writeBit v keep s) = pullupRegister s"
  "pullupRegisterMask (writeBit v keep s) = pullupRegisterMask s"
  "pullupPORT (writeBit v keep s) = pullupPORT s"
  "ioDDR (writeBit v keep s) = ioDDR s AND NOT (ioRegisterMask s)"
  "ioPORT (writeBit v keep s) = ioPORT s AND NOT (ioRegisterMask s)"
  by (simp_all add: writeBit_slot)

lemma writeByte_loop_fields:
  "ioRegisterMask (writeByte_loop byte pullup 0x01 s) = ioRegisterMask s"
  "irq (writeByte_loop byte pullup 0x01 s) = (\<not> pullup)"
  "trace (writeByte_loop byte pullup 0x01 s) = byte_slots byte pullup s @ trace s"
  "activePullup (writeByte_loop byte pullup 0x01 s) = activePullup s"
  "pullupRegister (writeByte_loop byte pullup 0x01 s) = pullupRegister s"
  "pullupRegisterMask (writeByte_loop byte pullup 0x01 s) = pullupRegisterMask s"
  by (simp_all add: writeByte_loop_unrolled byte_slots_def)

lemma writeByte_fields:
  "ioRegisterMask (writeByte byte pullup s) = ioRegisterMask s"
  "irq (writeByte byte pullup s) = (\<not> pullup)"
  "trace (writeByte byte pullup s) = byte_slots byte pullup s @ trace s"
  "activePullup (writeByte byte pullup s) = activePullup s"
  "pullupRegister (writeByte byte pullup s) = pullupRegister s"
  "pullupRegisterMask (writeByte byte pullup s) = pullupRegisterMask s"
  unfolding writeByte_def Let_def
  by (simp_all add: writeByte_loop_fields pullupEnable_def hw_defs)

lemma writeByte_line:
  "line (writeByte byte pullup s) =
     (if pullup \<and> \<not> (activePullup s \<and> pullupRegister s) then highDrive s else Floating)"
  unfolding writeByte_def Let_def
  by (simp add: writeByte_loop_fields pullupEnable_def hw_defs mask_simps highDrive_def)

lemma writeByte_pullupPORT:
  "pullup \<Longrightarrow> activePullup s \<Longrightarrow> pullupRegister s \<Longrightarrow>
   pullupPORT (writeByte byte pullup s) AND pullupRegisterMask s = pullupRegisterMask s"
  unfolding writeByte_def Let_def
  by (simp add: writeByte_loop_fields pullupEnable_def hw_defs mask_simps)

lemma activePullupDisable_effect:
  "irq (activePullupDisable t)"
  "activePullup t \<and> pullupRegister t \<Longrightarrow>
     pullupPORT (activePullupDisable t) AND pullupRegisterMask t = 0"
  "\<not> (activePullup t \<and> pullupRegister t) \<Longrightarrow> line (activePullupDisable t) = Floating"
  unfolding activePullupDisable_def Let_def
  by (auto simp add: pullupDisable_def hw_defs mask_simps)

lemma slot_hold_no_IrqOn: "takeWhile (\<lambda>e. e \<noteq> IrqOff) (slot v True s @ es) =
    (if v \<noteq> 0 then [Wait (highDrive s) 55, Wait (lowDrive s) 10]
     else [Wait (highDrive s) 5, Wait (lowDrive s) 65])"
  by (simp add: slot_def)


text \<open>
  Claim C8. After \<open>writeByte(b, true)\<close> interrupts are disabled and the line is held high (by
  the pin, or by the pull-up transistor with the pin floating when the active pull-up is
  configured); nothing after the last \<open>noInterrupts\<close> of the write re-enables them;
  \<open>activePullupDisable\<close> releases the line (or switches the pull-up off) and enables
  interrupts from any state; and only the last bit, mask 0x80, is written with the hold flag.
\<close>

theorem pullup_hold_until_release:
  assumes "ioRegisterMask s \<noteq> 0"
  shows "\<not> irq (writeByte byte True s)
    \<and> (if activePullup s \<and> pullupRegister s
        then pullupPORT (writeByte byte True s) AND pullupRegisterMask s = pullupRegisterMask s
           \<and> line (writeByte byte True s) = Floating
        else line (writeByte byte True s) = DrivenHigh)
    \<and> IrqOn \<notin> set (takeWhile (\<lambda>e. e \<noteq> IrqOff) (trace (writeByte byte True s)))
    \<and> irq (activePullupDisable t)
    \<and> (if activePullup s \<and> pullupRegister s
        then pullupPORT (activePullupDisable (writeByte byte True s)) AND pullupRegisterMask s = 0
        else line (activePullupDisable (writeByte byte True s)) = Floating)
    \<and> writeByte_loop byte pullup 0x01 s =
        writeBit (byte AND 0x80) pullup
          (writeBit (byte AND 0x40) False
            (writeBit (byte AND 0x20) False
              (writeBit (byte AND 0x10) False
                (writeBit (byte AND 0x08) False
                  (writeBit (byte AND 0x04) False
                    (writeBit (byte AND 0x02) False
                      (writeBit (byte AND 0x01) False s)))))))"
proof -
  let ?w = "writeByte byte True s"
  have 1: "\<not> irq ?w"
    by (simp add: writeByte_fields)
  have 2: "if activePullup s \<and> pullupRegister s
        then pullupPORT ?w AND pullupRegisterMask s = pullupRegisterMask s \<and> line ?w = Floating
        else line ?w = DrivenHigh"
    using assms by (simp add: writeByte_line writeByte_pullupPORT highDrive_def)
  have 3: "IrqOn \<notin> set (takeWhile (\<lambda>e. e \<noteq> IrqOff) (trace ?w))"
    by (simp add: writeByte_fields byte_slots_def slot_hold_no_IrqOn)
  have 4: "irq (activePullupDisable t)"
    by (rule activePullupDisable_effect)
  have 5: "if activePullup s \<and> pullupRegister s
        then pullupPORT (activePullupDisable ?w) AND pullupRegisterMask s = 0
        else line (activePullupDisable ?w) = Floating"
    using activePullupDisable_effect(2,3) [of ?w] by (simp add: writeByte_fields)
  from 1 2 3 4 5 show ?thesis
    by (simp only: writeByte_loop_unrolled simp_thms)
qed

theorem pullup_hold_until_release_witness:
  "\<not> irq (writeByte 0x44 True (power_on 0x04 stuck_low))
   \<and> line (writeByte 0x44 True (power_on 0x04 stuck_low)) = DrivenHigh
   \<and> line (activePullupDisable (writeByte 0x44 True (power_on 0x04 stuck_low))) = Floating
   \<and> irq (activePullupDisable (writeByte 0x44 True (power_on 0x04 stuck_low)))
   \<and> pullupPORT (writeByte 0x44 True (power_on_pullup 0x04 0x08 stuck_low)) AND 0x08 = 0x08
   \<and> pullupPORT (activePullupDisable (writeByte 0x44 True (power_on_pullup 0x04 0x08 stuck_low))) AND 0x08 = 0"
proof -
  have a: "ioRegisterMask (power_on 0x04 stuck_low) \<noteq> 0"
    and b: "ioRegisterMask (power_on_pullup 0x04 0x08 stuck_low) \<noteq> 0"
    by (simp_all add: power_on_def power_on_pullup_def)
  show ?thesis
    using pullup_hold_until_release [OF a, of "0x44" "writeByte 0x44 True (power_on 0x04 stuck_low)" True]
      pullup_hold_until_release [OF b, of "0x44" "power_on 0x04 stuck_low" True]
    by (simp add: power_on_def power_on_pullup_def)
qed

subsection \<open>Bytes on the wire and back\<close>

lemma readByte_loop_step:
  "readByte_loop res m t =
     (if push_bit 1 m \<noteq> 0
      then readByte_loop (if pinLowAt t 0 then res else res OR m) (push_bit 1 m) (snd (readBit t))
      else (if pinLowAt t 0 then res else res OR m, snd (readBit t)))"
  by (subst readByte_loop.simps) (simp add: Let_def readBit_eq sampleAt_def)

lemma pinLowAt_readBit [simp]: "pinLowAt (snd (readBit t)) k = pinLowAt t (Suc k)"
  by (simp add: readBit_eq pinLowAt_def)

lemma push_bit_exp_u8: "push_bit 1 ((2 :: u8) ^ k) = 2 ^ Suc k"
  by (simp add: push_bit_eq_mult)

lemma exp_u8_zero: "((2 :: u8) ^ k = 0) = (8 \<le> k)"
  by (simp add: exp_eq_zero_iff)

lemma bit_exp_u8: "bit ((2 :: u8) ^ k) n = (n = k \<and> k < 8)"
  by (auto simp add: bit_exp_iff)

lemma bit_128_u8: "bit (128 :: u8) n = (n = 7)"
  using bit_exp_u8 [of 7 n] by simp

lemma bit_128_int: "bit (128 :: int) n = (n = 7)"
  using bit_exp_iff [where ?'a = int, of 7 n] by simp

lemma readByte_loop_bits:
  "k + j = 7 \<Longrightarrow>
   bit (fst (readByte_loop res (2 ^ k) t)) n =
     (bit res n \<or> (k \<le> n \<and> n \<le> 7 \<and> \<not> pinLowAt t (n - k)))"
proof (induction j arbitrary: k res t)
  case 0
  then have k: "k = 7" by simp
  show ?case
    by (subst readByte_loop_step)
      (auto simp add: k push_bit_eq_mult bit_or_iff bit_128_u8 bit_128_int)
next
  case (Suc j)
  then have k: "Suc k + j = 7" and lt: "k < 7" by simp_all
  from lt have nz: "(2 :: u8) ^ Suc k \<noteq> 0"
    by (simp add: exp_u8_zero del: power_Suc)
  have step: "readByte_loop res (2 ^ k) t =
      readByte_loop (if pinLowAt t 0 then res else res OR 2 ^ k) (2 ^ Suc k) (snd (readBit t))"
    by (subst readByte_loop_step) (simp only: push_bit_exp_u8 nz not_False_eq_True if_True)
  show ?case
  proof (cases "Suc k \<le> n")
    case True
    then have "Suc (n - Suc k) = n - k" and "n \<noteq> k" and "k \<le> n"
      by simp_all
    then show ?thesis
      unfolding step Suc.IH [OF k]
      using True by (simp add: bit_or_iff bit_exp_u8 del: power_Suc)
  next
    case False
    then have "n = k \<or> n < k"
      by auto
    then show ?thesis
      unfolding step Suc.IH [OF k]
      using False lt by (auto simp add: bit_or_iff bit_exp_u8 simp del: power_Suc)
  qed
qed

lemma readByte_bits: "bit (fst (readByte t)) n = (n \<le> 7 \<and> \<not> pinLowAt t n)"
  using readByte_loop_bits [of 0 7 0 t n] by (simp add: readByte_def)


lemma low_pulses_slot:
  "ioRegisterMask s \<noteq> 0 \<Longrightarrow>
   low_pulses 0 (rev (slot v keep s) @ rest) = (if v \<noteq> 0 then 10 else 65) # low_pulses 0 rest"
  by (simp add: slot_def lowDrive_def highDrive_def)

lemma low_pulses_slot_last:
  "ioRegisterMask s \<noteq> 0 \<Longrightarrow>
   low_pulses 0 (rev (slot v keep s)) = [if v \<noteq> 0 then 10 else 65]"
  using low_pulses_slot [of s v keep "[]"] by simp

lemma events_since_writeByte:
  "events_since s (writeByte byte pullup s) = rev (byte_slots byte pullup s)"
  by (simp add: events_since_def writeByte_fields)

lemma and_bit_u8:
  "(b AND 0x01 \<noteq> 0) = bit (b :: u8) 0" "(b AND 0x02 \<noteq> 0) = bit b 1"
  "(b AND 0x04 \<noteq> 0) = bit b 2" "(b AND 0x08 \<noteq> 0) = bit b 3"
  "(b AND 0x10 \<noteq> 0) = bit b 4" "(b AND 0x20 \<noteq> 0) = bit b 5"
  "(b AND 0x40 \<noteq> 0) = bit b 6" "(b AND 0x80 \<noteq> 0) = bit b 7"
  using and_exp_eq_0_iff_not_bit [of b 0] and_exp_eq_0_iff_not_bit [of b 1]
    and_exp_eq_0_iff_not_bit [of b 2] and_exp_eq_0_iff_not_bit [of b 3]
    and_exp_eq_0_iff_not_bit [of b 4] and_exp_eq_0_iff_not_bit [of b 5]
    and_exp_eq_0_iff_not_bit [of b 6] and_exp_eq_0_iff_not_bit [of b 7]
  by simp_all

lemma written_bits_writeByte:
  assumes "ioRegisterMask s \<noteq> 0"
  shows "written_bits (events_since s (writeByte b pullup s)) =
     [bit b 0, bit b 1, bit b 2, bit b 3, bit b 4, bit b 5, bit b 6, bit b 7]"
proof -
  have "low_pulses 0 (rev (byte_slots b pullup s)) =
      [if b AND 0x01 \<noteq> 0 then 10 else 65, if b AND 0x02 \<noteq> 0 then 10 else 65,
       if b AND 0x04 \<noteq> 0 then 10 else 65, if b AND 0x08 \<noteq> 0 then 10 else 65,
       if b AND 0x10 \<noteq> 0 then 10 else 65, if b AND 0x20 \<noteq> 0 then 10 else 65,
       if b AND 0x40 \<noteq> 0 then 10 else 65, if b AND 0x80 \<noteq> 0 then 10 else 65]"
    by (simp only: byte_slots_def rev_append append_assoc low_pulses_slot [OF assms]
        low_pulses_slot_last [OF assms])
  moreover have "((if c then (10 :: nat) else 65) < 15) = c" for c
    by simp
  ultimately show ?thesis
    by (simp only: written_bits_def events_since_writeByte list.map and_bit_u8)
qed

lemma below_eight:
  assumes "n < (8 :: nat)"
    and "P 0" and "P 1" and "P 2" and "P 3" and "P 4" and "P 5" and "P 6" and "P 7"
  shows "P n"
proof -
  from assms(1) have "n \<in> {0, 1, 2, 3, 4, 5, 6, 7}"
    by auto
  with assms(2-) show ?thesis
    by auto
qed

text \<open>
  Claim C6. \<open>writeByte\<close> puts the eight bits of its argument on the wire least significant
  bit first, \<open>readByte\<close> assembles the eight bits it reads least significant bit first, and so
  on a bus that answers the reads with the bits \<open>writeByte\<close> emitted, \<open>readByte\<close> returns
  the byte written; for every byte.
\<close>

theorem byte_roundtrip:
  assumes "ioRegisterMask s \<noteq> 0"
  shows "written_bits (events_since s (writeByte b pullup s)) =
       [bit b 0, bit b 1, bit b 2, bit b 3, bit b 4, bit b 5, bit b 6, bit b 7]
    \<and> (\<forall>n. bit (fst (readByte t)) n = (n \<le> 7 \<and> \<not> pinLowAt t n))
    \<and> ((\<forall>k < 8. (\<not> pinLowAt t k) = written_bits (events_since s (writeByte b pullup s)) ! k)
         \<longrightarrow> fst (readByte t) = b)"
proof -
  let ?wb = "written_bits (events_since s (writeByte b pullup s))"
  have w: "?wb = [bit b 0, bit b 1, bit b 2, bit b 3, bit b 4, bit b 5, bit b 6, bit b 7]"
    using assms by (rule written_bits_writeByte)
  have nth: "?wb ! n = bit b n" if "n < 8" for n
    using that unfolding w
    by (rule below_eight [where P = "\<lambda>n. [bit b 0, bit b 1, bit b 2, bit b 3, bit b 4, bit b 5, bit b 6, bit b 7] ! n = bit b n"])
      simp_all
  have r: "\<forall>n. bit (fst (readByte t)) n = (n \<le> 7 \<and> \<not> pinLowAt t n)"
    by (simp add: readByte_bits)
  have "fst (readByte t) = b" if loop: "\<forall>k < 8. (\<not> pinLowAt t k) = ?wb ! k"
  proof (rule bit_word_eqI)
    fix n
    assume "n < LENGTH(8)"
    then have n: "n < 8"
      by simp
    with loop have "(\<not> pinLowAt t n) = ?wb ! n"
      by blast
    with n show "bit (fst (readByte t)) n = bit b n"
      by (simp add: readByte_bits nth)
  qed
  with w r show ?thesis
    by blast
qed


theorem byte_roundtrip_witness:
  "written_bits (events_since (power_on 0x04 stuck_low) (writeByte 0xA5 False (power_on 0x04 stuck_low)))
     = [True, False, True, False, False, True, False, True]
   \<and> fst (readByte (power_on 0x04 (loopback [True, False, True, False, False, True, False, True]))) = 0xA5"
proof -
  let ?s = "power_on 0x04 stuck_low"
  let ?bs = "[True, False, True, False, False, True, False, True]"
  let ?t = "power_on 0x04 (loopback ?bs)"
  have m: "ioRegisterMask ?s \<noteq> 0"
    by (simp add: power_on_def)
  note T = byte_roundtrip [OF m, of "0xA5" False ?t]
  have w: "written_bits (events_since ?s (writeByte 0xA5 False ?s)) = ?bs"
    using T by (simp add: bit_numeral_simps numeral_eq_Suc)
  have "(\<not> pinLowAt ?t k) = ?bs ! k" if "k < 8" for k
    using that
    by (rule below_eight [where P = "\<lambda>k. (\<not> pinLowAt ?t k) = ?bs ! k"])
      (simp_all add: pinLowAt_def power_on_def loopback_def)
  then have "\<forall>k < 8. (\<not> pinLowAt ?t k) = written_bits (events_since ?s (writeByte 0xA5 False ?s)) ! k"
    unfolding w by blast
  with T w show ?thesis
    by blast
qed

section \<open>The search\<close>

subsection \<open>One level of the recursion\<close>

lemma discovery_leaf:
  "discoveryDevicesRecursive 64 alarmSearch s =
     (if crc8CheckIButton (adrCurrent s) 7 (adrCurrent s 7) = Some True then invokeCallback s else s)"
  by (subst discoveryDevicesRecursive.simps) simp

lemma sampleAt_simps [simp]:
  "(sampleAt s k = 0) = pinLowAt s k" "(sampleAt s k = 1) = (\<not> pinLowAt s k)"
  by (simp_all add: sampleAt_def)

lemma readBit_fst: "fst (readBit s) = sampleAt s 0"
  by (simp add: readBit_eq)

lemma readBit_fst2: "fst (readBit (snd (readBit s))) = sampleAt s 1"
  by (simp add: readBit_eq sampleAt_def pinLowAt_def)

lemma searchCommand_if:
  "(if \<not> alarmSearch then writeByte 0xF0 False s else writeByte 0xEC False s) =
     writeByte (searchCommand alarmSearch) False s"
  by (simp add: searchCommand_def)

lemma discovery_node:
  "level \<noteq> 64 \<Longrightarrow>
   discoveryDevicesRecursive level alarmSearch s =
     (if \<not> pinLowAt s 0 \<and> \<not> pinLowAt s 1 then twoReads s
      else if pinLowAt s 0 \<and> \<not> pinLowAt s 1 then
        discoveryDevicesRecursive (level + 1) alarmSearch
          (writeBit 0 False (adrClearBit level (twoReads s)))
      else if \<not> pinLowAt s 0 \<and> pinLowAt s 1 then
        discoveryDevicesRecursive (level + 1) alarmSearch
          (writeBit 1 False (adrSetBit level (twoReads s)))
      else
        (let t = resetAndPresenceDetection
                   (discoveryDevicesRecursive (level + 1) alarmSearch
                      (writeBit 0 False (adrClearBit level (twoReads s))))
         in if \<not> fst t then snd t
            else discoveryDevicesRecursive (level + 1) alarmSearch
                   (writeBit 1 False
                      (twoReads
                         (adrSetBit level
                            (replayBits 0 level
                               (writeByte (searchCommand alarmSearch) False (snd t))))))))"
  apply (subst discoveryDevicesRecursive.simps)
  apply (simp only: Let_def case_prod_beta searchCommand_if readBit_fst readBit_fst2
      twoReads_def [symmetric] sampleAt_simps)
  apply (simp only: numeral_times_numeral semiring_norm num.simps if_False refl)
  apply simp
  done


lemma one_device_answers: "one_device = search_samples [0x28, 0xFF, 0x4B, 0x45, 0x92, 0x16, 0x04, 0xF0]"
  by (simp add: one_device_def search_samples_def upt_rec bit_numeral_simps numeral_eq_Suc)

lemma reset_first_poll:
  "\<not> pinLowAt s 0 \<Longrightarrow>
   resetAndPresenceDetection s =
     (pinLowAt s 1,
      s\<lparr>ioDDR := ioDDR s AND NOT (ioRegisterMask s),
        ioPORT := ioPORT s AND NOT (ioRegisterMask s),
        reads := Suc (Suc (reads s)), irq := True,
        trace := Wait Floating 420 # IrqOn # Sample (sampleAt s 1) # Wait Floating 60 #
                 IrqOff # Wait (lowDrive s) 480 # IrqOn #
                 Sample 1 # Wait Floating 5 # IrqOff # trace s\<rparr>)"
  using resetAndPresenceDetection_idle [of 0 s]
  by (simp add: ONEWIRE_RETRY_RESETWAITHIGH_def pollTrace_def)

lemmas search_eval = discovery_node discovery_leaf twoReads_def readBit_eq writeBit_eq
  adrClearBit_def adrSetBit_def invokeCallback_def pinLowAt_def sampleAt_def lowDrive_def
  highDrive_def loopback_def one_device_def power_on_def searchCommand_def
  writeByte_def writeByte_loop_unrolled hw_defs

lemma discovery_induct [case_names leaf node]:
  fixes P :: "u8 \<Rightarrow> bool \<Rightarrow> onewire \<Rightarrow> bool"
  assumes leaf: "\<And>alarmSearch s. P 64 alarmSearch s"
    and node: "\<And>level alarmSearch s. level \<noteq> 64 \<Longrightarrow> (\<And>t. P (level + 1) alarmSearch t) \<Longrightarrow> P level alarmSearch s"
  shows "P level alarmSearch s"
proof (induction "unat (64 - level)" arbitrary: level s rule: less_induct)
  case less
  show ?case
  proof (cases "level = 64")
    case True
    then show ?thesis by (simp add: leaf)
  next
    case False
    then have "unat (64 - (level + 1)) < unat (64 - level)"
      using unat_level_less [of level] by simp
    then have "P (level + 1) alarmSearch t" for t
      by (rule less)
    with False show ?thesis
      by (rule node)
  qed
qed

lemma twoReads_driver [simp]:
  "discoverCallback (twoReads s) = discoverCallback s"
  "adrCurrent (twoReads s) = adrCurrent s"
  "discoveredDevices (twoReads s) = discoveredDevices s"
  "reported (twoReads s) = reported s"
  "ub (twoReads s) = ub s"
  by (simp_all add: twoReads_def readBit_eq)

lemma writeBit_driver [simp]:
  "discoverCallback (writeBit v keep s) = discoverCallback s"
  "adrCurrent (writeBit v keep s) = adrCurrent s"
  "discoveredDevices (writeBit v keep s) = discoveredDevices s"
  "reported (writeBit v keep s) = reported s"
  "ub (writeBit v keep s) = ub s"
  by (simp_all add: writeBit_eq)

lemma writeByte_driver [simp]:
  "discoverCallback (writeByte b p s) = discoverCallback s"
  "adrCurrent (writeByte b p s) = adrCurrent s"
  "discoveredDevices (writeByte b p s) = discoveredDevices s"
  "reported (writeByte b p s) = reported s"
  "ub (writeByte b p s) = ub s"
  unfolding writeByte_def Let_def
  by (simp_all add: writeByte_loop_unrolled pullupEnable_def hw_defs)

lemma reset_driver [simp]:
  "discoverCallback (snd (resetAndPresenceDetection s)) = discoverCallback s"
  "adrCurrent (snd (resetAndPresenceDetection s)) = adrCurrent s"
  "discoveredDevices (snd (resetAndPresenceDetection s)) = discoveredDevices s"
  "reported (snd (resetAndPresenceDetection s)) = reported s"
  "ub (snd (resetAndPresenceDetection s)) = ub s"
proof -
  let ?r = "snd (resetAndPresenceDetection s)"
  have "discoverCallback ?r = discoverCallback s \<and> adrCurrent ?r = adrCurrent s
      \<and> discoveredDevices ?r = discoveredDevices s \<and> reported ?r = reported s \<and> ub ?r = ub s"
  proof (cases "\<forall>k < ONEWIRE_RETRY_RESETWAITHIGH - 1. pinLowAt s k")
    case True
    then show ?thesis
      by (simp add: resetAndPresenceDetection_giveup)
  next
    case False
    then obtain n where "n < ONEWIRE_RETRY_RESETWAITHIGH - 1" and "\<forall>k < n. pinLowAt s k"
      and "\<not> pinLowAt s n"
      by (rule first_idle_poll)
    then show ?thesis
      by (simp add: resetAndPresenceDetection_idle)
  qed
  then show "discoverCallback ?r = discoverCallback s" "adrCurrent ?r = adrCurrent s"
    "discoveredDevices ?r = discoveredDevices s" "reported ?r = reported s" "ub ?r = ub s"
    by simp_all
qed

lemma replayStep_driver [simp]:
  "discoverCallback (replayStep b s) = discoverCallback s"
  "adrCurrent (replayStep b s) = adrCurrent s"
  "discoveredDevices (replayStep b s) = discoveredDevices s"
  "reported (replayStep b s) = reported s"
  "ub (replayStep b s) = ub s"
  by (simp_all add: replayStep_def twoReads_def [symmetric])

lemma recordedBit_replayStep [simp]: "recordedBit (replayStep b s) i = recordedBit s i"
  by (simp add: recordedBit_def)

lemma and_push_bit_zero: "(x AND push_bit n 1 = 0) = (\<not> bit (x :: u8) n)"
  using and_exp_eq_0_iff_not_bit [of x n] by (simp add: push_bit_eq_mult)

lemma replayBits_step:
  "replayBits i level s =
     (if i < level then replayBits (i + 1) level (replayStep (recordedBit s (unat i)) s) else s)"
  apply (subst replayBits.simps)
  apply (simp only: Let_def case_prod_beta replayStep_def recordedBit_def and_push_bit_zero)
  apply (simp add: readBit_eq)
  done

subsection \<open>What a search leaves unchanged, and what it reports\<close>

lemma fold_replayStep_driver [simp]:
  "discoverCallback (fold (\<lambda>j. replayStep (f j)) js s) = discoverCallback s"
  "adrCurrent (fold (\<lambda>j. replayStep (f j)) js s) = adrCurrent s"
  "discoveredDevices (fold (\<lambda>j. replayStep (f j)) js s) = discoveredDevices s"
  "reported (fold (\<lambda>j. replayStep (f j)) js s) = reported s"
  "ub (fold (\<lambda>j. replayStep (f j)) js s) = ub s"
  by (induction js arbitrary: s; simp)+

lemma replayBits_fold:
  "replayBits i level s = fold (\<lambda>j. replayStep (recordedBit s j)) [unat i..<unat level] s"
proof (induction "unat level - unat i" arbitrary: i s)
  case 0
  then have "\<not> i < level"
    by (simp add: word_less_nat_alt)
  with 0 show ?case
    by (subst replayBits_step) simp
next
  case (Suc n)
  then have lt: "i < level"
    by (simp add: word_less_nat_alt)
  then have u: "unat (i + 1) = Suc (unat i)"
    by (rule unat_succ)
  let ?s' = "replayStep (recordedBit s (unat i)) s"
  from Suc u have "n = unat level - unat (i + 1)"
    by simp
  then have "replayBits (i + 1) level ?s' =
      fold (\<lambda>j. replayStep (recordedBit ?s' j)) [unat (i + 1)..<unat level] ?s'"
    by (rule Suc.hyps(1))
  moreover have "recordedBit ?s' = recordedBit s"
    by (rule ext) simp
  moreover from lt have "[unat i..<unat level] = unat i # [Suc (unat i)..<unat level]"
    by (simp add: upt_conv_Cons word_less_nat_alt)
  ultimately show ?case
    using lt u by (subst replayBits_step) simp
qed

lemma replayBits_driver [simp]:
  "discoverCallback (replayBits i level s) = discoverCallback s"
  "adrCurrent (replayBits i level s) = adrCurrent s"
  "discoveredDevices (replayBits i level s) = discoveredDevices s"
  "reported (replayBits i level s) = reported s"
  "ub (replayBits i level s) = ub s"
  by (simp_all add: replayBits_fold)

lemma adrBit_driver [simp]:
  "discoverCallback (adrClearBit level s) = discoverCallback s"
  "discoveredDevices (adrClearBit level s) = discoveredDevices s"
  "reported (adrClearBit level s) = reported s"
  "discoverCallback (adrSetBit level s) = discoverCallback s"
  "discoveredDevices (adrSetBit level s) = discoveredDevices s"
  "reported (adrSetBit level s) = reported s"
  by (simp_all add: adrClearBit_def adrSetBit_def Let_def)

lemma invokeCallback_driver [simp]:
  "discoverCallback (invokeCallback s) = discoverCallback s"
  "discoveredDevices (invokeCallback s) = discoveredDevices s"
  "adrCurrent (invokeCallback s) = adrCurrent s"
  by (simp_all add: invokeCallback_def split: option.splits)

lemma discovery_keeps_callback [simp]:
  "discoverCallback (discoveryDevicesRecursive level alarmSearch s) = discoverCallback s"
proof (induction level alarmSearch s rule: discovery_induct)
  case (leaf alarmSearch s)
  show ?case by (simp add: discovery_leaf)
next
  case (node level alarmSearch s)
  then show ?case by (simp add: discovery_node Let_def)
qed

lemma discovery_keeps_count [simp]:
  "discoveredDevices (discoveryDevicesRecursive level alarmSearch s) = discoveredDevices s"
proof (induction level alarmSearch s rule: discovery_induct)
  case (leaf alarmSearch s)
  show ?case by (simp add: discovery_leaf)
next
  case (node level alarmSearch s)
  then show ?case by (simp add: discovery_node Let_def)
qed

lemma reports_more_refl: "reported s' = reported s \<Longrightarrow> reports_more s s'"
  by (simp add: reports_more_def)

lemma reports_more_trans: "reports_more s t \<Longrightarrow> reports_more t u \<Longrightarrow> reports_more s u"
  by (fastforce simp add: reports_more_def)

lemma reports_more_cong:
  "reported s' = reported s \<Longrightarrow> reported t' = reported t \<Longrightarrow> reports_more s t \<Longrightarrow> reports_more s' t'"
  by (simp add: reports_more_def)

lemma leaf_valid:
  assumes "crc8CheckIButton (adrCurrent s) 7 (adrCurrent s 7) = Some True"
  shows "valid_id (map (adrCurrent s) [0..<8])"
proof -
  let ?rom = "map (adrCurrent s) [0..<8]"
  have sum: "crc8 (map (adrCurrent s) [0..<7]) = adrCurrent s 7"
    using assms by (simp add: crc8CheckIButton_eq crcUpdate8_zero)
  have split: "?rom = map (adrCurrent s) [0..<7] @ [adrCurrent s 7]"
    by (simp add: upt_rec eval_nat_numeral)
  have len: "length ?rom = 8"
    by simp
  have last: "?rom ! 7 = adrCurrent s 7"
    by simp
  have front: "take 7 ?rom = map (adrCurrent s) [0..<7]"
    by (simp add: take_map)
  have "crc8 ?rom = 0"
    by (simp only: split crc8_snoc crcUpdate8_zero sum)
  with len last front sum show ?thesis
    by (simp only: valid_id_def simp_thms)
qed

lemma discovery_reports_valid:
  "reports_more s (discoveryDevicesRecursive level alarmSearch s)"
proof (induction level alarmSearch s rule: discovery_induct)
  case (leaf alarmSearch s)
  show ?case
    using leaf_valid [of s]
    by (auto simp add: discovery_leaf invokeCallback_def reports_more_def split: option.splits)
next
  case (node level alarmSearch s)
  let ?zero = "writeBit 0 False (adrClearBit level (twoReads s))"
  let ?one = "writeBit 1 False (adrSetBit level (twoReads s))"
  let ?t = "resetAndPresenceDetection (discoveryDevicesRecursive (level + 1) alarmSearch ?zero)"
  let ?resume = "writeBit 1 False (twoReads (adrSetBit level (replayBits 0 level
                   (writeByte (searchCommand alarmSearch) False (snd ?t)))))"
  have a: "reports_more s (twoReads s)"
    by (simp add: reports_more_refl)
  have b: "reports_more s (discoveryDevicesRecursive (level + 1) alarmSearch ?zero)"
    by (rule reports_more_cong [OF _ _ node.IH [of ?zero]]) simp_all
  have c: "reports_more s (discoveryDevicesRecursive (level + 1) alarmSearch ?one)"
    by (rule reports_more_cong [OF _ _ node.IH [of ?one]]) simp_all
  have d: "reports_more s (snd ?t)"
    by (rule reports_more_cong [OF _ _ b]) simp_all
  have "reports_more (snd ?t) (discoveryDevicesRecursive (level + 1) alarmSearch ?resume)"
    by (rule reports_more_cong [OF _ _ node.IH [of ?resume]]) simp_all
  with d have e: "reports_more s (discoveryDevicesRecursive (level + 1) alarmSearch ?resume)"
    by (rule reports_more_trans)
  from a b c d e show ?case
    by (simp add: discovery_node [OF node.hyps] Let_def)
qed

subsection \<open>Validation at depth 64 and failure of a replay reset\<close>

lemma buffer_split: "map f [0..<8] = map f [0..<7] @ [f 7]"
  by (simp add: upt_rec eval_nat_numeral)

lemma leaf_check: "(crc8CheckIButton (adrCurrent s) 7 (adrCurrent s 7) = Some True) =
    (crc8 (map (adrCurrent s) [0..<8]) = 0)"
  by (simp only: buffer_split crc8_snoc) (simp add: crc8CheckIButton_eq)

lemma discoverDevices_eq:
  "discoverDevices callback alarmSearch s =
     (if callback = None then (Some 0, s\<lparr>discoveredDevices := 0\<rparr>\<lparr>discoverCallback := callback\<rparr>)
      else if \<not> fst (resetAndPresenceDetection (cleared callback s))
        then (Some 0, snd (resetAndPresenceDetection (cleared callback s)))
        else (None, discoveryDevicesRecursive 0 alarmSearch
                      (writeByte (searchCommand alarmSearch) False
                         (snd (resetAndPresenceDetection (cleared callback s))))))"
  by (simp only: discoverDevices_def Let_def case_prod_beta searchCommand_if cleared_def)

lemma cleared_driver [simp]:
  "reported (cleared callback s) = reported s"
  "discoverCallback (cleared callback s) = callback"
  "discoveredDevices (cleared callback s) = 0"
  "ub (cleared callback s) = ub s"
  by (simp_all add: cleared_def)

lemma discoverDevices_reports_valid:
  "reports_more s (snd (discoverDevices callback alarmSearch s))"
proof -
  let ?r = "resetAndPresenceDetection (cleared callback s)"
  let ?s2 = "writeByte (searchCommand alarmSearch) False (snd ?r)"
  have "reports_more ?s2 (discoveryDevicesRecursive 0 alarmSearch ?s2)"
    by (rule discovery_reports_valid)
  then have "reports_more s (discoveryDevicesRecursive 0 alarmSearch ?s2)"
    by (rule reports_more_cong [rotated 2]) simp_all
  then show ?thesis
    by (simp add: discoverDevices_eq reports_more_refl)
qed

text \<open>
  Claim C5. At depth 64 the search validates the eight bytes of the buffer (they must fold to
  0) and calls the callback only then. Whatever the bus reads, every identifier a search adds
  to the callback log has eight bytes whose last one is the checksum of the seven before it: a
  pattern with a wrong checksum byte never reaches the callback.
\<close>

theorem invalid_crc_never_reported:
  "discoveryDevicesRecursive 64 alarmSearch s =
     (if crc8 (map (adrCurrent s) [0..<8]) = 0 then invokeCallback s else s)
   \<and> (\<exists>ys. reported (discoveryDevicesRecursive level alarmSearch s) = reported s @ ys
          \<and> (\<forall>rom \<in> set ys. length rom = 8 \<and> crc8 rom = 0 \<and> rom ! 7 = crc8 (take 7 rom)))
   \<and> (\<exists>ys. reported (snd (discoverDevices callback alarmSearch s)) = reported s @ ys
          \<and> (\<forall>rom \<in> set ys. length rom = 8 \<and> crc8 rom = 0 \<and> rom ! 7 = crc8 (take 7 rom)))"
  using discovery_reports_valid [of s level alarmSearch]
    discoverDevices_reports_valid [of s callback alarmSearch]
  by (simp add: discovery_leaf leaf_check reports_more_def valid_id_def)

theorem invalid_crc_never_reported_witness:
  "reported (discoveryDevicesRecursive 64 False (searching rom_DS18B20 stuck_low))
     = [[0x28, 0xFF, 0x4B, 0x45, 0x92, 0x16, 0x04, 0xF0]]
   \<and> reported (discoveryDevicesRecursive 64 False (searching rom_corrupted stuck_low)) = []
   \<and> crc8 [0x28, 0xFF, 0x4B, 0x45, 0x92, 0x16, 0x04, 0xF0] = 0
   \<and> crc8 [0x28, 0xFF, 0x4B, 0x45, 0x92, 0x16, 0x04, 0xF1] \<noteq> 0"
proof -
  let ?ok = "searching rom_DS18B20 stuck_low" and ?bad = "searching rom_corrupted stuck_low"
  have ok: "map (adrCurrent ?ok) [0..<8] = [0x28, 0xFF, 0x4B, 0x45, 0x92, 0x16, 0x04, 0xF0]"
    and bad: "map (adrCurrent ?bad) [0..<8] = [0x28, 0xFF, 0x4B, 0x45, 0x92, 0x16, 0x04, 0xF1]"
    by (simp_all add: searching_def rom_DS18B20_def rom_corrupted_def upt_rec)
  have c1: "crc8 [0x28, 0xFF, 0x4B, 0x45, 0x92, 0x16, 0x04, 0xF0] = 0"
    and c2: "crc8 [0x28, 0xFF, 0x4B, 0x45, 0x92, 0x16, 0x04, 0xF1] \<noteq> 0"
    by (simp_all add: crc_eval)
  have f: "discoverCallback ?ok = Some (Callback 1)" "reported ?ok = []" "reported ?bad = []"
    by (simp_all add: searching_def power_on_def)
  have "discoveryDevicesRecursive 64 False ?ok =
      (if crc8 (map (adrCurrent ?ok) [0..<8]) = 0 then invokeCallback ?ok else ?ok)"
    using invalid_crc_never_reported [of False ?ok 64 None] by (rule conjunct1)
  then have "discoveryDevicesRecursive 64 False ?ok = invokeCallback ?ok"
    by (simp only: ok c1 refl if_True)
  then have "reported (discoveryDevicesRecursive 64 False ?ok) = [[0x28, 0xFF, 0x4B, 0x45, 0x92, 0x16, 0x04, 0xF0]]"
    by (simp add: invokeCallback_def f ok)
  moreover have "discoveryDevicesRecursive 64 False ?bad =
      (if crc8 (map (adrCurrent ?bad) [0..<8]) = 0 then invokeCallback ?bad else ?bad)"
    using invalid_crc_never_reported [of False ?bad 64 None] by (rule conjunct1)
  then have "discoveryDevicesRecursive 64 False ?bad = ?bad"
    using c2 by (simp only: bad if_False)
  then have "reported (discoveryDevicesRecursive 64 False ?bad) = []"
    by (simp add: f)
  ultimately show ?thesis
    using c1 c2 by simp
qed

text \<open>
  Claim C7. When, after a collision and the return of the 0 branch, the reset before the 1
  branch fails, the call returns in the state that reset left: nothing more is read or
  written. The callback log is that of the 0 branch, which extends the log the call started
  with; and no call of the search ever shortens the log.
\<close>

theorem replay_reset_failure_ends_branch:
  assumes "level \<noteq> 64" and "pinLowAt s 0" and "pinLowAt s 1"
    and "\<not> fst (resetAndPresenceDetection
                 (discoveryDevicesRecursive (level + 1) alarmSearch
                    (writeBit 0 False (adrClearBit level (snd (readBit (snd (readBit s))))))))"
  shows "discoveryDevicesRecursive level alarmSearch s =
       snd (resetAndPresenceDetection
              (discoveryDevicesRecursive (level + 1) alarmSearch
                 (writeBit 0 False (adrClearBit level (snd (readBit (snd (readBit s))))))))
    \<and> reported (discoveryDevicesRecursive level alarmSearch s) =
       reported (discoveryDevicesRecursive (level + 1) alarmSearch
                   (writeBit 0 False (adrClearBit level (snd (readBit (snd (readBit s)))))))
    \<and> (\<exists>ys. reported (discoveryDevicesRecursive level alarmSearch s) = reported s @ ys)
    \<and> (\<exists>ys. reported (discoveryDevicesRecursive level' alarmSearch t) = reported t @ ys)"
proof -
  let ?zero = "discoveryDevicesRecursive (level + 1) alarmSearch
                 (writeBit 0 False (adrClearBit level (snd (readBit (snd (readBit s))))))"
  from assms have eq: "discoveryDevicesRecursive level alarmSearch s = snd (resetAndPresenceDetection ?zero)"
    by (simp add: discovery_node Let_def twoReads_def)
  then have same: "reported (discoveryDevicesRecursive level alarmSearch s) = reported ?zero"
    by simp
  have more: "\<exists>ys. reported (discoveryDevicesRecursive l alarmSearch u) = reported u @ ys" for l u
    using discovery_reports_valid [of u l alarmSearch] by (auto simp add: reports_more_def)
  from eq same more [of level s] more [of level' t] show ?thesis
    by (intro conjI)
qed


theorem replay_reset_failure_ends_branch_witness:
  "discoveryDevicesRecursive 63 False (searching rom_DS1820 stuck_low) =
     snd (resetAndPresenceDetection
            (discoveryDevicesRecursive 64 False
               (writeBit 0 False
                  (adrClearBit 63 (snd (readBit (snd (readBit (searching rom_DS1820 stuck_low)))))))))
   \<and> reported (discoveryDevicesRecursive 63 False (searching rom_DS1820 stuck_low))
       = [[0x10, 0x50, 0xA9, 0x0A, 0x02, 0x08, 0x00, 0x37]]"
proof -
  let ?s = "searching rom_DS1820 stuck_low"
  let ?z = "writeBit 0 False (adrClearBit 63 (snd (readBit (snd (readBit ?s)))))"
  let ?zero = "discoveryDevicesRecursive 64 False ?z"
  have h1: "(63 :: u8) \<noteq> 64"
    by simp
  have h2: "pinLowAt ?s 0" and h3: "pinLowAt ?s 1"
    by (simp_all add: pinLowAt_def searching_def power_on_def stuck_low_def)
  have rom': "map (adrCurrent (adrClearBit 63 (twoReads ?s))) [0..<8] =
      [0x10, 0x50, 0xA9, 0x0A, 0x02, 0x08, 0x00, 0x37]"
    by (simp add: adrClearBit_def searching_def rom_DS1820_def upt_rec)
  then have rom: "map (adrCurrent ?z) [0..<8] = [0x10, 0x50, 0xA9, 0x0A, 0x02, 0x08, 0x00, 0x37]"
    by (simp add: twoReads_def [symmetric])
  have f: "discoverCallback ?s = Some (Callback 1)" "reported ?s = []"
    by (simp_all add: searching_def power_on_def)
  have crc: "crc8 [0x10, 0x50, 0xA9, 0x0A, 0x02, 0x08, 0x00, 0x37] = 0"
    by (simp add: crc_eval)
  have leaf: "?zero = invokeCallback ?z"
    by (simp only: discovery_leaf leaf_check rom crc refl if_True)
  have "pinLowAt ?zero k" for k
    unfolding leaf
    by (simp add: pinLowAt_def invokeCallback_def writeBit_eq readBit_eq adrClearBit_def
        searching_def power_on_def stuck_low_def)
  then have "\<not> fst (resetAndPresenceDetection ?zero)"
    by (simp add: resetAndPresenceDetection_giveup)
  then have h4: "\<not> fst (resetAndPresenceDetection
       (discoveryDevicesRecursive (63 + 1) False
          (writeBit 0 False (adrClearBit 63 (snd (readBit (snd (readBit ?s))))))))"
    by simp
  have "reported ?zero = [[0x10, 0x50, 0xA9, 0x0A, 0x02, 0x08, 0x00, 0x37]]"
    unfolding leaf
    by (simp add: invokeCallback_def rom' f twoReads_def [symmetric])
  with replay_reset_failure_ends_branch [OF h1 h2 h3 h4, of 0 ?s] show ?thesis
    by simp
qed

subsection \<open>The collision branch\<close>

lemma split_index: "(j :: nat) = l \<longleftrightarrow> j div 8 = l div 8 \<and> j mod 8 = l mod 8"
  by (metis div_mult_mod_eq)

lemma bit_clear_u8: "bit ((x :: u8) AND NOT (2 ^ k)) n = (bit x n \<and> n \<noteq> k)"
  by (auto simp add: bit_simps dest: bit_imp_le_length)

lemma bit_set_u8: "k < 8 \<Longrightarrow> bit ((x :: u8) OR 2 ^ k) n = (bit x n \<or> n = k)"
  by (auto simp add: bit_simps)

lemma recordedBit_adrClearBit:
  "unat level < 64 \<Longrightarrow>
   recordedBit (adrClearBit level s) j = (recordedBit s j \<and> j \<noteq> unat level)"
  by (auto simp add: recordedBit_def adrClearBit_def Let_def bit_clear_u8 split_index [of j "unat level"])

lemma recordedBit_adrSetBit:
  "unat level < 64 \<Longrightarrow>
   recordedBit (adrSetBit level s) j = (recordedBit s j \<or> j = unat level)"
  by (auto simp add: recordedBit_def adrSetBit_def Let_def bit_set_u8 split_index [of j "unat level"])

lemma recordedBit_bus [simp]:
  "recordedBit (twoReads s) = recordedBit s"
  "recordedBit (writeBit v keep s) = recordedBit s"
  "recordedBit (writeByte b p s) = recordedBit s"
  "recordedBit (snd (resetAndPresenceDetection s)) = recordedBit s"
  "recordedBit (replayBits i level s) = recordedBit s"
  "recordedBit (invokeCallback s) = recordedBit s"
  by (simp_all add: recordedBit_def fun_eq_iff)

lemma discovery_keeps_lower_bits:
  "unat level \<le> 64 \<longrightarrow>
     (\<forall>j < unat level. recordedBit (discoveryDevicesRecursive level alarmSearch s) j = recordedBit s j)"
proof (induction level alarmSearch s rule: discovery_induct)
  case (leaf alarmSearch s)
  show ?case
    by (simp add: discovery_leaf)
next
  case (node level alarmSearch s)
  show ?case
  proof (intro impI allI)
    fix j
    assume le: "unat level \<le> 64" and j: "j < unat level"
    have "unat level \<noteq> 64"
    proof
      assume "unat level = 64"
      then have "word_of_nat (unat level) = (word_of_nat 64 :: u8)"
        by simp
      with node.hyps show False
        by simp
    qed
    with le have lt: "unat level < 64"
      by simp
    then have "level < 64"
      by (simp add: word_less_nat_alt)
    then have "unat (level + 1) = Suc (unat level)"
      by (rule unat_succ)
    with lt j node.IH have IH: "recordedBit (discoveryDevicesRecursive (level + 1) alarmSearch t) j = recordedBit t j" for t
      by simp
    from j have ne: "j \<noteq> unat level"
      by simp
    show "recordedBit (discoveryDevicesRecursive level alarmSearch s) j = recordedBit s j"
      by (simp add: discovery_node [OF node.hyps] Let_def IH recordedBit_adrClearBit [OF lt]
          recordedBit_adrSetBit [OF lt] ne)
  qed
qed


lemma twoReads_adrSetBit: "twoReads (adrSetBit level s) = adrSetBit level (twoReads s)"
  by (simp add: twoReads_def readBit_eq adrSetBit_def Let_def sampleAt_def pinLowAt_def lowDrive_def)

lemma searchCommand_eq: "searchCommand alarmSearch = (if alarmSearch then 0xEC else 0xF0)"
  by (simp add: searchCommand_def)

lemma replay_recorded:
  assumes lt: "unat level < 64"
  shows "replayBits 0 level
           (writeByte cmd False
              (snd (resetAndPresenceDetection
                      (discoveryDevicesRecursive (level + 1) alarmSearch
                         (writeBit 0 False (adrClearBit level (twoReads s)))))))
       = fold (\<lambda>i. replayStep (recordedBit s i)) [0..<unat level]
           (writeByte cmd False
              (snd (resetAndPresenceDetection
                      (discoveryDevicesRecursive (level + 1) alarmSearch
                         (writeBit 0 False (adrClearBit level (twoReads s)))))))"
proof -
  let ?z = "writeBit 0 False (adrClearBit level (twoReads s))"
  let ?c = "writeByte cmd False
              (snd (resetAndPresenceDetection (discoveryDevicesRecursive (level + 1) alarmSearch ?z)))"
  from lt have "level < 64"
    by (simp add: word_less_nat_alt)
  then have u: "unat (level + 1) = Suc (unat level)"
    by (rule unat_succ)
  have "recordedBit ?c i = recordedBit s i" if "i < unat level" for i
  proof -
    have "recordedBit ?c i = recordedBit (discoveryDevicesRecursive (level + 1) alarmSearch ?z) i"
      by simp
    also have "\<dots> = recordedBit ?z i"
      using discovery_keeps_lower_bits [of "level + 1" alarmSearch ?z] lt that u by simp
    also have "\<dots> = recordedBit s i"
      using that by (simp add: recordedBit_adrClearBit [OF lt])
    finally show ?thesis .
  qed
  then have "fold (\<lambda>i. replayStep (recordedBit ?c i)) [0..<unat level] ?c =
      fold (\<lambda>i. replayStep (recordedBit s i)) [0..<unat level] ?c"
    by (intro fold_cong) simp_all
  then show ?thesis
    by (simp add: replayBits_fold)
qed

text \<open>
  Claim C2. On a collision (bit and complement both read 0) at depth \<open>level\<close> the search
  records 0 at bit \<open>level\<close>, writes 0 and recurses; then resets the bus and, when a device is
  present, writes the search command (0xF0, or 0xEC for an alarm search); then for each depth
  below \<open>level\<close>, in order, reads and drops a pair and writes back the bit recorded at that
  depth; then reads and drops one more pair, whatever it reads; then records 1 at bit
  \<open>level\<close>, writes 1 and recurses.
\<close>

theorem collision_splits_and_replays:
  assumes "unat level < 64" and "pinLowAt s 0" and "pinLowAt s 1"
  shows "discoveryDevicesRecursive level alarmSearch s =
      (let zero = discoveryDevicesRecursive (level + 1) alarmSearch
                    (writeBit 0 False (adrClearBit level (snd (readBit (snd (readBit s))))));
           restart = resetAndPresenceDetection zero
       in if \<not> fst restart then snd restart
          else
            let command = writeByte (if alarmSearch then 0xEC else 0xF0) False (snd restart);
                replayed = fold (\<lambda>i. replayStep (recordedBit s i)) [0..<unat level] command;
                dropped = snd (readBit (snd (readBit replayed)))
            in discoveryDevicesRecursive (level + 1) alarmSearch
                 (writeBit 1 False (adrSetBit level dropped)))
    \<and> \<not> recordedBit (adrClearBit level t) (unat level)
    \<and> recordedBit (adrSetBit level t) (unat level)"
proof -
  from assms(1) have ne: "level \<noteq> 64"
    by auto
  have "discoveryDevicesRecursive level alarmSearch s =
      (let zero = discoveryDevicesRecursive (level + 1) alarmSearch
                    (writeBit 0 False (adrClearBit level (twoReads s)));
           restart = resetAndPresenceDetection zero
       in if \<not> fst restart then snd restart
          else
            let command = writeByte (searchCommand alarmSearch) False (snd restart);
                replayed = fold (\<lambda>i. replayStep (recordedBit s i)) [0..<unat level] command;
                dropped = twoReads replayed
            in discoveryDevicesRecursive (level + 1) alarmSearch
                 (writeBit 1 False (adrSetBit level dropped)))"
    using assms(2,3)
    by (simp add: discovery_node [OF ne] Let_def twoReads_adrSetBit replay_recorded [OF assms(1)])
  then show ?thesis
    by (simp only: twoReads_def searchCommand_eq recordedBit_adrClearBit [OF assms(1)]
        recordedBit_adrSetBit [OF assms(1)] simp_thms)
qed


theorem collision_splits_and_replays_witness:
  "unat (2 :: u8) < 64
   \<and> pinLowAt (searching rom_DS1820 (loopback two_branches)) 0
   \<and> pinLowAt (searching rom_DS1820 (loopback two_branches)) 1
   \<and> reads (discoveryDevicesRecursive 2 False (searching rom_DS1820 (loopback two_branches))) = 14
   \<and> recordedBit (discoveryDevicesRecursive 2 False (searching rom_DS1820 (loopback two_branches))) 2"
proof -
  let ?s = "searching rom_DS1820 (loopback two_branches)"
  have h1: "unat (2 :: u8) < 64"
    by simp
  have h2: "pinLowAt ?s 0" and h3: "pinLowAt ?s 1"
    by (simp_all add: pinLowAt_def searching_def power_on_def loopback_def two_branches_def)
  note eq = collision_splits_and_replays [OF h1 h2 h3, of False ?s, THEN conjunct1]
  have "reads (discoveryDevicesRecursive 2 False ?s) = 14
      \<and> recordedBit (discoveryDevicesRecursive 2 False ?s) 2"
    unfolding eq Let_def
    by (simp add: search_eval reset_first_poll replayStep_def recordedBit_def searching_def
        two_branches_def rom_DS1820_def upt_rec)
  with h1 h2 h3 show ?thesis
    by simp
qed

subsection \<open>The result of an enumeration\<close>

lemma discoverDevices_null:
  "discoverDevices None alarmSearch s = (Some 0, s\<lparr>discoveredDevices := 0, discoverCallback := None\<rparr>)"
  by (simp add: discoverDevices_eq)

lemma discoverDevices_no_presence:
  "callback \<noteq> None \<Longrightarrow> \<not> fst (resetAndPresenceDetection (cleared callback s)) \<Longrightarrow>
   discoverDevices callback alarmSearch s = (Some 0, snd (resetAndPresenceDetection (cleared callback s)))"
  by (cases callback) (simp_all add: discoverDevices_eq)

lemma discoverDevices_search:
  "callback \<noteq> None \<Longrightarrow> fst (resetAndPresenceDetection (cleared callback s)) \<Longrightarrow>
   discoverDevices callback alarmSearch s =
     (None, discoveryDevicesRecursive 0 alarmSearch
              (writeByte (searchCommand alarmSearch) False
                 (snd (resetAndPresenceDetection (cleared callback s)))))"
  by (cases callback) (simp_all add: discoverDevices_eq)

lemma discoverDevices_count_stays_0:
  "discoveredDevices (snd (discoverDevices callback alarmSearch s)) = 0"
  by (simp add: discoverDevices_eq)

text \<open>
  Claim C1. \<open>discoverDevices\<close> returns 0 at once, with no bus activity, for a null callback,
  and 0 when the first reset finds no device (lemmas \<open>discoverDevices_null\<close> and
  \<open>discoverDevices_no_presence\<close>). The claim has it return
  the number of identifiers reported otherwise. On a bus with the one device
  28 FF 4B 45 92 16 04 F0 the search hands that identifier to the callback once, and the
  function ends without a \<open>return\<close> statement, its counter \<open>discoveredDevices\<close> still 0.
\<close>

theorem discoverDevices_returns_no_count:
  "fst (discoverDevices (Some (Callback 1)) False (power_on 0x04 (loopback one_device))) = None
   \<and> reported (snd (discoverDevices (Some (Callback 1)) False (power_on 0x04 (loopback one_device))))
       = [[0x28, 0xFF, 0x4B, 0x45, 0x92, 0x16, 0x04, 0xF0]]
   \<and> discoveredDevices (snd (discoverDevices (Some (Callback 1)) False (power_on 0x04 (loopback one_device)))) = 0"
proof -
  let ?s = "power_on 0x04 (loopback one_device)"
  let ?cb = "Some (Callback 1)"
  have idle: "\<not> pinLowAt (cleared ?cb ?s) 0" and presence: "pinLowAt (cleared ?cb ?s) 1"
    by (simp_all add: pinLowAt_def cleared_def power_on_def loopback_def one_device_def)
  then have "fst (resetAndPresenceDetection (cleared ?cb ?s))"
    by (simp add: reset_first_poll)
  then have run: "discoverDevices ?cb False ?s =
     (None, discoveryDevicesRecursive 0 False
              (writeByte (searchCommand False) False (snd (resetAndPresenceDetection (cleared ?cb ?s)))))"
    by (simp add: discoverDevices_search)
  have "reported (discoveryDevicesRecursive 0 False
              (writeByte (searchCommand False) False (snd (resetAndPresenceDetection (cleared ?cb ?s)))))
       = [[0x28, 0xFF, 0x4B, 0x45, 0x92, 0x16, 0x04, 0xF0]]"
    by (simp add: reset_first_poll search_eval cleared_def crc8CheckIButton_eq crc_eval upt_rec)
  with run show ?thesis
    by simp
qed

end
